theory Spec2Isabelle
  imports Main "HOL-Library.Word" "HOL-Library.AList"
begin

section \<open>The worker pool of main.go as a transition system\<close>

text \<open>
  The pool of \<^verbatim>\<open>main.go\<close> is a concurrent program: one thread, the caller, runs
  \<^verbatim>\<open>NewPool\<close>, \<^verbatim>\<open>AddWorker\<close>, \<^verbatim>\<open>RemoveWorker\<close>, \<^verbatim>\<open>SendJob\<close> and \<^verbatim>\<open>Shutdown\<close>,
  and every \<^verbatim>\<open>AddWorker\<close> starts a goroutine. The model is an interleaving semantics:
  a state of the whole program, one function per method of the source, one function per
  statement of the worker goroutine, and a schedule, which is a list of actions. What
  the scheduler and the \<^verbatim>\<open>select\<close> statement choose at run time is the choice of the
  next action.

  Atomicity follows the source. \<^verbatim>\<open>AddWorker\<close>, \<^verbatim>\<open>RemoveWorker\<close>, the cancelling loop of
  \<^verbatim>\<open>Shutdown\<close> and the worker's \<^verbatim>\<open>delete\<close> hold \<^verbatim>\<open>p.mu\<close> for their whole body, and
  what they touch outside the lock commutes with the steps of the workers, so each is
  one step (the mutex itself is not a field of the model). A channel operation, a
  \<^verbatim>\<open>WaitGroup\<close> operation and a \<^verbatim>\<open>Printf\<close> are one step each. \<^verbatim>\<open>Shutdown\<close>, which
  holds no lock across its three statements, is three steps, and the worker's deferred
  function is three steps (delete under the lock; \<^verbatim>\<open>wg.Done\<close>; \<^verbatim>\<open>Printf\<close>).

  Integers of type \<^verbatim>\<open>int\<close> have 64 bits and wrap around, and \<^verbatim>\<open>make\<close> checks the size of
  a channel as the runtime of a 64-bit target does. The memory of the host is not
  modelled: an allocation that passes the checks of the runtime succeeds, the number of
  goroutines and contexts and the counter of the \<^verbatim>\<open>WaitGroup\<close> are unbounded, and a step
  takes no time.
\<close>

subsection \<open>Data\<close>

text \<open>
  Go's \<^verbatim>\<open>int\<close> on a 64-bit target, read as a signed number by \<open>sint\<close>:
  \<^verbatim>\<open>p.nextID++\<close> wraps around from \<open>2\<^sup>6\<^sup>3 - 1\<close> to \<open>- 2\<^sup>6\<^sup>3\<close>.
\<close>

type_synonym goint = "64 word"

text \<open>
  A cancellation scope made by \<^verbatim>\<open>context.WithCancel(context.Background())\<close> is an
  address in a store of done-flags; the \<^verbatim>\<open>CancelFunc\<close> it returns is identified with
  the address it sets.
\<close>

type_synonym ctx = nat

record Worker =
  ID :: goint
  Cancel :: ctx

text \<open>
  \<^verbatim>\<open>chan string\<close>: the buffer, its capacity, the closed flag, and the queue of
  goroutines parked in a receive (the runtime serves them first in, first out).
\<close>

record chan =
  buf :: "string list"
  cap :: nat
  closed :: bool
  recvq :: "nat list"

text \<open>
  Where a worker goroutine stands in \<^verbatim>\<open>func(id, ctx)\<close>: before its first \<^verbatim>\<open>Printf\<close>;
  at the \<^verbatim>\<open>select\<close>; parked in the \<^verbatim>\<open>select\<close> with no case ready; holding a received
  job; at the start of the deferred function; after \<^verbatim>\<open>delete\<close> and \<^verbatim>\<open>Unlock\<close>; after
  \<^verbatim>\<open>wg.Done()\<close>; finished.
\<close>

datatype pc =
  Starting | Selecting | Parked | Processing string
  | Returning | Deregistered | Signalled | Stopped

record goroutine =
  g_id :: goint
  g_ctx :: ctx
  g_pc :: pc

text \<open>The three lines a worker prints.\<close>

datatype event = Started goint | ProcessingJob goint string | StoppedEv goint

text \<open>How far the call of \<^verbatim>\<open>Shutdown\<close> has come.\<close>

datatype shutdown_pc = NotCalled | QueueClosed | WorkersCancelled | Returned

datatype panic =
  MakechanSizeOutOfRange | SendOnClosedChannel | CloseOfClosedChannel
  | NegativeWaitGroupCounter

text \<open>\<^verbatim>\<open>fmt.Errorf("job queue is full")\<close>\<close>

datatype error = QueueFull

text \<open>
  \<^verbatim>\<open>Pool\<close> with its fields (\<^verbatim>\<open>workers\<close> is an association list with unique keys, so
  that the \<^verbatim>\<open>range\<close> loop of \<^verbatim>\<open>Shutdown\<close> can run over it; \<^verbatim>\<open>wg\<close> is the counter of
  the \<^verbatim>\<open>WaitGroup\<close>), extended by the rest of the running program: the store of
  contexts, every goroutine started so far in the order of its start, the output,
  the progress of \<^verbatim>\<open>Shutdown\<close>, and two history variables: the jobs \<^verbatim>\<open>SendJob\<close>
  accepted and the jobs handed to a worker, each in order.
\<close>

record Pool =
  workers :: "(goint \<times> Worker) list"
  jobs :: chan
  nextID :: goint
  wg :: int

record system = Pool +
  ctxs :: "bool list"
  procs :: "goroutine list"
  out :: "event list"
  sd :: shutdown_pc
  accepted :: "string list"
  delivered :: "(nat \<times> string) list"

datatype 'a outcome = Panic panic | Blocked | Next 'a

subsection \<open>The methods of the pool\<close>

text \<open>
  \<^verbatim>\<open>make(chan string, bufferSize)\<close> is \<^verbatim>\<open>runtime.makechan\<close>. It multiplies the size of an
  element by the size of the channel, read as a \<^verbatim>\<open>uintptr\<close>, and panics with
  \<^verbatim>\<open>makechan: size out of range\<close> when the product overflows, when it exceeds
  \<^verbatim>\<open>maxAlloc - hchanSize\<close>, or when the size is negative. The constants are those of a
  64-bit target with 48 bits of heap address: a \<^verbatim>\<open>string\<close> is a pointer and a length,
  16 bytes; \<^verbatim>\<open>maxAlloc\<close> is \<open>2\<^sup>4\<^sup>8\<close>; the header of a channel, \<^verbatim>\<open>hchanSize\<close>, has 104
  bytes (96 before Go 1.23). The allocation that follows the check fails, with a fatal
  error and not a panic, on a host that has not the memory for the buffer; the model
  describes a host that has it.
\<close>

definition elem_size :: nat where
  "elem_size = 16"

definition maxAlloc :: nat where
  "maxAlloc = 2 ^ 48"

definition hchanSize :: nat where
  "hchanSize = 104"

definition make_chan :: "goint \<Rightarrow> panic + chan" where
  "make_chan n =
     (let mem = (elem_size * unat n) mod 2 ^ 64;
          overflow = (2 ^ 64 \<le> elem_size * unat n)
      in if overflow \<or> mem > maxAlloc - hchanSize \<or> sint n < 0
         then Inl MakechanSizeOutOfRange
         else Inr \<lparr>buf = [], cap = nat (sint n), closed = False, recvq = []\<rparr>)"

definition NewPool :: "goint \<Rightarrow> panic + system" where
  "NewPool bufferSize =
     (case make_chan bufferSize of
        Inl e \<Rightarrow> Inl e
      | Inr c \<Rightarrow>
          Inr \<lparr>workers = [], jobs = c, nextID = 0, wg = 0,
               ctxs = [], procs = [], out = [], sd = NotCalled,
               accepted = [], delivered = []\<rparr>)"

text \<open>
  \<^verbatim>\<open>AddWorker\<close>: a new context, the next id, the registry entry, \<^verbatim>\<open>wg.Add(1)\<close>, and the
  \<^verbatim>\<open>go\<close> statement, which appends a goroutine that has not run yet.
\<close>

definition AddWorker :: "system \<Rightarrow> goint \<times> system" where
  "AddWorker s =
     (let c = length (ctxs s);
          wid = nextID s;
          worker = \<lparr>ID = wid, Cancel = c\<rparr>
      in (wid,
          s\<lparr>ctxs := ctxs s @ [False],
            nextID := nextID s + 1,
            workers := AList.update wid worker (workers s),
            wg := wg s + 1,
            procs := procs s @ [\<lparr>g_id = wid, g_ctx = c, g_pc = Starting\<rparr>]\<rparr>))"

text \<open>
  Calling a \<^verbatim>\<open>CancelFunc\<close>: the context is done from now on, and a goroutine parked in
  a \<^verbatim>\<open>select\<close> on this context wakes up in the branch \<^verbatim>\<open>case <-ctx.Done(): return\<close>
  and leaves the channel's receive queue.
\<close>

definition cancel :: "ctx \<Rightarrow> system \<Rightarrow> system" where
  "cancel c s =
     s\<lparr>ctxs := (ctxs s)[c := True],
       procs := map (\<lambda>g. if g_pc g = Parked \<and> g_ctx g = c then g\<lparr>g_pc := Returning\<rparr> else g)
                  (procs s),
       jobs := (jobs s)\<lparr>recvq := filter (\<lambda>i. g_ctx (procs s ! i) \<noteq> c) (recvq (jobs s))\<rparr>\<rparr>"

definition RemoveWorker :: "goint \<Rightarrow> system \<Rightarrow> system" where
  "RemoveWorker wid s =
     (case map_of (workers s) wid of
        Some worker \<Rightarrow> cancel (Cancel worker) s
      | None \<Rightarrow> s)"

text \<open>
  \<^verbatim>\<open>SendJob\<close>: a \<^verbatim>\<open>select\<close> with a send and a \<^verbatim>\<open>default\<close>. A send on a closed channel
  panics; a parked receiver takes the job directly; otherwise the job goes to the
  buffer if there is room; otherwise the \<^verbatim>\<open>default\<close> branch returns the error.
\<close>

definition SendJob :: "string \<Rightarrow> system \<Rightarrow> panic + (error option \<times> system)" where
  "SendJob job s =
     (if closed (jobs s) then Inl SendOnClosedChannel
      else case recvq (jobs s) of
        g # q \<Rightarrow>
          Inr (None,
               s\<lparr>jobs := (jobs s)\<lparr>recvq := q\<rparr>,
                 procs := (procs s)[g := (procs s ! g)\<lparr>g_pc := Processing job\<rparr>],
                 accepted := accepted s @ [job],
                 delivered := delivered s @ [(g, job)]\<rparr>)
      | [] \<Rightarrow>
          if length (buf (jobs s)) < cap (jobs s)
          then Inr (None,
                    s\<lparr>jobs := (jobs s)\<lparr>buf := buf (jobs s) @ [job]\<rparr>,
                      accepted := accepted s @ [job]\<rparr>)
          else Inr (Some QueueFull, s))"

text \<open>
  The three statements of \<^verbatim>\<open>Shutdown\<close>. \<^verbatim>\<open>close(p.jobs)\<close> panics on a closed channel
  and wakes every parked receiver with \<^verbatim>\<open>ok = false\<close>, which returns. The loop calls
  \<^verbatim>\<open>Cancel\<close> of every entry of the registry. \<^verbatim>\<open>p.wg.Wait()\<close> returns when the counter
  is zero and blocks otherwise.
\<close>

definition Shutdown_close :: "system \<Rightarrow> panic + system" where
  "Shutdown_close s =
     (if closed (jobs s) then Inl CloseOfClosedChannel
      else Inr (s\<lparr>jobs := (jobs s)\<lparr>closed := True, recvq := []\<rparr>,
                  procs := map (\<lambda>g. if g_pc g = Parked then g\<lparr>g_pc := Returning\<rparr> else g)
                             (procs s),
                  sd := QueueClosed\<rparr>))"

definition Shutdown_cancel :: "system \<Rightarrow> system" where
  "Shutdown_cancel s =
     (fold (\<lambda>kw. cancel (Cancel (snd kw))) (workers s) s)\<lparr>sd := WorkersCancelled\<rparr>"

definition Shutdown_wait :: "system \<Rightarrow> system option" where
  "Shutdown_wait s = (if wg s = 0 then Some (s\<lparr>sd := Returned\<rparr>) else None)"


subsection \<open>The worker goroutine\<close>

definition set_pc :: "nat \<Rightarrow> pc \<Rightarrow> system \<Rightarrow> system" where
  "set_pc g p s = s\<lparr>procs := (procs s)[g := (procs s ! g)\<lparr>g_pc := p\<rparr>]\<rparr>"

definition pc_of :: "system \<Rightarrow> nat \<Rightarrow> pc option" where
  "pc_of s g = (if g < length (procs s) then Some (g_pc (procs s ! g)) else None)"

definition ctx_done :: "system \<Rightarrow> ctx \<Rightarrow> bool" where
  "ctx_done s c = (c < length (ctxs s) \<and> ctxs s ! c)"

text \<open>\<^verbatim>\<open>fmt.Printf("Worker %d started\n", id)\<close>\<close>

definition w_start :: "nat \<Rightarrow> system \<Rightarrow> system outcome" where
  "w_start g s =
     (if pc_of s g = Some Starting
      then Next (set_pc g Selecting (s\<lparr>out := out s @ [Started (g_id (procs s ! g))]\<rparr>))
      else Blocked)"

text \<open>The \<^verbatim>\<open>select\<close> with no case ready: the goroutine parks on the channel.\<close>

definition w_park :: "nat \<Rightarrow> system \<Rightarrow> system outcome" where
  "w_park g s =
     (if pc_of s g = Some Selecting \<and> \<not> ctx_done s (g_ctx (procs s ! g))
         \<and> buf (jobs s) = [] \<and> \<not> closed (jobs s)
      then Next (set_pc g Parked (s\<lparr>jobs := (jobs s)\<lparr>recvq := recvq (jobs s) @ [g]\<rparr>\<rparr>))
      else Blocked)"

text \<open>\<^verbatim>\<open>case <-ctx.Done(): return\<close>\<close>

definition w_select_done :: "nat \<Rightarrow> system \<Rightarrow> system outcome" where
  "w_select_done g s =
     (if pc_of s g = Some Selecting \<and> ctx_done s (g_ctx (procs s ! g))
      then Next (set_pc g Returning s)
      else Blocked)"

text \<open>\<^verbatim>\<open>case job, ok := <-p.jobs\<close>: a buffered job, or \<^verbatim>\<open>ok = false\<close> and \<^verbatim>\<open>return\<close>
  when the channel is closed and empty.\<close>

definition w_select_job :: "nat \<Rightarrow> system \<Rightarrow> system outcome" where
  "w_select_job g s =
     (if pc_of s g = Some Selecting
      then (case buf (jobs s) of
              j # js \<Rightarrow>
                Next (set_pc g (Processing j)
                       (s\<lparr>jobs := (jobs s)\<lparr>buf := js\<rparr>,
                          delivered := delivered s @ [(g, j)]\<rparr>))
            | [] \<Rightarrow> if closed (jobs s) then Next (set_pc g Returning s) else Blocked)
      else Blocked)"

text \<open>\<^verbatim>\<open>fmt.Printf("Worker %d processing job: %s\n", id, job)\<close> and the \<^verbatim>\<open>Sleep\<close>.\<close>

definition w_process :: "nat \<Rightarrow> system \<Rightarrow> system outcome" where
  "w_process g s =
     (case pc_of s g of
        Some (Processing j) \<Rightarrow>
          Next (set_pc g Selecting (s\<lparr>out := out s @ [ProcessingJob (g_id (procs s ! g)) j]\<rparr>))
      | _ \<Rightarrow> Blocked)"

text \<open>The deferred function: \<^verbatim>\<open>p.mu.Lock(); delete(p.workers, id); p.mu.Unlock()\<close>,\<close>

definition w_deregister :: "nat \<Rightarrow> system \<Rightarrow> system outcome" where
  "w_deregister g s =
     (if pc_of s g = Some Returning
      then Next (set_pc g Deregistered
                  (s\<lparr>workers := AList.delete (g_id (procs s ! g)) (workers s)\<rparr>))
      else Blocked)"

text \<open>then \<^verbatim>\<open>p.wg.Done()\<close>, which panics on a counter that would go negative,\<close>

definition w_done :: "nat \<Rightarrow> system \<Rightarrow> system outcome" where
  "w_done g s =
     (if pc_of s g = Some Deregistered
      then (if wg s \<le> 0 then Panic NegativeWaitGroupCounter
            else Next (set_pc g Signalled (s\<lparr>wg := wg s - 1\<rparr>)))
      else Blocked)"

text \<open>then \<^verbatim>\<open>fmt.Printf("Worker %d stopped\n", id)\<close>.\<close>

definition w_stop :: "nat \<Rightarrow> system \<Rightarrow> system outcome" where
  "w_stop g s =
     (if pc_of s g = Some Signalled
      then Next (set_pc g Stopped (s\<lparr>out := out s @ [StoppedEv (g_id (procs s ! g))]\<rparr>))
      else Blocked)"

subsection \<open>Schedules\<close>

datatype action =
  CallAddWorker | CallRemoveWorker goint | CallSendJob string
  | ShutdownClose | ShutdownCancel | ShutdownWait
  | WStart nat | WPark nat | WSelectDone nat | WSelectJob nat | WProcess nat
  | WDeregister nat | WDone nat | WStop nat

text \<open>
  The caller is one thread, as \<^verbatim>\<open>main\<close> is: it can start a call only when it is not
  inside \<^verbatim>\<open>Shutdown\<close>.
\<close>

definition caller_free :: "system \<Rightarrow> bool" where
  "caller_free s \<longleftrightarrow> sd s = NotCalled \<or> sd s = Returned"

text \<open>
  One step of the program; \<open>Blocked\<close> says that the action cannot be taken in this
  state. The statements of \<^verbatim>\<open>Shutdown\<close> run in program order: the loop only after the
  \<^verbatim>\<open>close\<close>, the \<^verbatim>\<open>Wait\<close> only after the loop, and the steps of the workers run in
  between in any order.
\<close>

fun step :: "action \<Rightarrow> system \<Rightarrow> system outcome" where
  "step CallAddWorker s =
     (if caller_free s then Next (snd (AddWorker s)) else Blocked)"
| "step (CallRemoveWorker wid) s =
     (if caller_free s then Next (RemoveWorker wid s) else Blocked)"
| "step (CallSendJob job) s =
     (if caller_free s
      then (case SendJob job s of Inl e \<Rightarrow> Panic e | Inr r \<Rightarrow> Next (snd r))
      else Blocked)"
| "step ShutdownClose s =
     (if caller_free s
      then (case Shutdown_close s of Inl e \<Rightarrow> Panic e | Inr s' \<Rightarrow> Next s')
      else Blocked)"
| "step ShutdownCancel s =
     (if sd s = QueueClosed then Next (Shutdown_cancel s) else Blocked)"
| "step ShutdownWait s =
     (if sd s = WorkersCancelled
      then (case Shutdown_wait s of None \<Rightarrow> Blocked | Some s' \<Rightarrow> Next s')
      else Blocked)"
| "step (WStart g) s = w_start g s"
| "step (WPark g) s = w_park g s"
| "step (WSelectDone g) s = w_select_done g s"
| "step (WSelectJob g) s = w_select_job g s"
| "step (WProcess g) s = w_process g s"
| "step (WDeregister g) s = w_deregister g s"
| "step (WDone g) s = w_done g s"
| "step (WStop g) s = w_stop g s"

text \<open>A schedule runs until an action panics or cannot be taken.\<close>

fun run :: "action list \<Rightarrow> system \<Rightarrow> system outcome" where
  "run [] s = Next s"
| "run (a # as) s =
     (case step a s of
        Next s' \<Rightarrow> run as s'
      | Panic e \<Rightarrow> Panic e
      | Blocked \<Rightarrow> Blocked)"

text \<open>The states of a pool made with \<^verbatim>\<open>NewPool(bufferSize)\<close>.\<close>

definition reachable :: "goint \<Rightarrow> action list \<Rightarrow> system \<Rightarrow> bool" where
  "reachable bufferSize acts s =
     (case NewPool bufferSize of
        Inl e \<Rightarrow> False
      | Inr s0 \<Rightarrow> run acts s0 = Next s)"

text \<open>
  Consecutive calls of \<^verbatim>\<open>SendJob\<close> with nothing running in between, as in the loops of
  \<^verbatim>\<open>main\<close>; the results are collected in order.
\<close>

fun send_all :: "string list \<Rightarrow> system \<Rightarrow> panic + (error option list \<times> system)" where
  "send_all [] s = Inr ([], s)"
| "send_all (j # js) s =
     (case SendJob j s of
        Inl e \<Rightarrow> Inl e
      | Inr r \<Rightarrow>
          (case send_all js (snd r) of
             Inl e \<Rightarrow> Inl e
           | Inr rs \<Rightarrow> Inr (fst r # fst rs, snd rs)))"

text \<open>\<open>k\<close> consecutive calls of \<^verbatim>\<open>AddWorker\<close>.\<close>

primrec add_workers :: "nat \<Rightarrow> system \<Rightarrow> system" where
  "add_workers 0 s = s"
| "add_workers (Suc k) s = add_workers k (snd (AddWorker s))"

section \<open>Invariants of the reachable states\<close>

text \<open>
  The \<^verbatim>\<open>WaitGroup\<close> counts a goroutine until it has called \<^verbatim>\<open>wg.Done()\<close>; the
  registry holds an entry for a goroutine at most until its \<^verbatim>\<open>delete\<close>.
\<close>

fun counted :: "pc \<Rightarrow> bool" where
  "counted Signalled = False"
| "counted Stopped = False"
| "counted _ = True"

fun registered :: "pc \<Rightarrow> bool" where
  "registered Deregistered = False"
| "registered Signalled = False"
| "registered Stopped = False"
| "registered _ = True"

definition live :: "system \<Rightarrow> nat" where
  "live s = length (filter (\<lambda>g. counted (g_pc g)) (procs s))"

text \<open>
  Goroutine number \<open>i\<close> was started by the \<open>i\<close>-th call of \<^verbatim>\<open>AddWorker\<close> (counting
  from 0): its id is \<open>i\<close> as a 64-bit integer and its context is the \<open>i\<close>-th one made.
\<close>

definition inv_ids :: "system \<Rightarrow> bool" where
  "inv_ids s \<longleftrightarrow>
     nextID s = of_nat (length (procs s)) \<and> length (ctxs s) = length (procs s) \<and>
     (\<forall>i < length (procs s). g_id (procs s ! i) = of_nat i \<and> g_ctx (procs s ! i) = i)"

text \<open>
  The channel: the receive queue holds each parked goroutine once, receivers are parked
  only while the buffer is empty and the channel open, and the buffer never exceeds its
  capacity.
\<close>

definition inv_q :: "system \<Rightarrow> bool" where
  "inv_q s \<longleftrightarrow>
     distinct (recvq (jobs s)) \<and>
     (\<forall>g \<in> set (recvq (jobs s)). g < length (procs s) \<and> g_pc (procs s ! g) = Parked) \<and>
     (recvq (jobs s) \<noteq> [] \<longrightarrow> buf (jobs s) = [] \<and> \<not> closed (jobs s)) \<and>
     length (buf (jobs s)) \<le> cap (jobs s)"

definition inv_wg :: "system \<Rightarrow> bool" where
  "inv_wg s \<longleftrightarrow> wg s = int (live s)"

text \<open>
  Every entry of the registry belongs to a goroutine with that id and that context which
  has not run its \<^verbatim>\<open>delete\<close> yet.
\<close>

definition inv_reg :: "system \<Rightarrow> bool" where
  "inv_reg s \<longleftrightarrow>
     (\<forall>kw \<in> set (workers s).
        (\<exists>i < length (procs s). g_id (procs s ! i) = fst kw \<and> g_ctx (procs s ! i) = Cancel (snd kw) \<and>
           registered (g_pc (procs s ! i))) \<and>
        Cancel (snd kw) < length (ctxs s))"

text \<open>
  The history variables: the accepted jobs are the delivered ones followed by the
  buffered ones, and a job is only delivered to a goroutine that exists.
\<close>

definition inv_hist :: "system \<Rightarrow> bool" where
  "inv_hist s \<longleftrightarrow>
     map snd (delivered s) @ buf (jobs s) = accepted s \<and>
     (\<forall>g j. (g, j) \<in> set (delivered s) \<longrightarrow> g < length (procs s))"

definition inv_sd :: "system \<Rightarrow> bool" where
  "inv_sd s \<longleftrightarrow> (sd s \<noteq> NotCalled \<longrightarrow> closed (jobs s))"

definition wf :: "system \<Rightarrow> bool" where
  "wf s \<longleftrightarrow> inv_ids s \<and> inv_q s \<and> inv_wg s \<and> inv_reg s \<and> inv_hist s \<and> inv_sd s"

section \<open>Example states\<close>

text \<open>\<^verbatim>\<open>NewPool(2)\<close>, the same pool after \<^verbatim>\<open>close(p.jobs)\<close>, and after \<^verbatim>\<open>Shutdown\<close> returned.\<close>

definition st_fresh :: system where
  "st_fresh = \<lparr>workers = [], jobs = \<lparr>buf = [], cap = 2, closed = False, recvq = []\<rparr>,
      nextID = 0, wg = 0, ctxs = [], procs = [], out = [], sd = NotCalled,
      accepted = [], delivered = []\<rparr>"

definition st_closed :: system where
  "st_closed = st_fresh\<lparr>jobs := \<lparr>buf = [], cap = 2, closed = True, recvq = []\<rparr>, sd := QueueClosed\<rparr>"

definition st_closed_done :: system where
  "st_closed_done = st_closed\<lparr>sd := Returned\<rparr>"

text \<open>\<^verbatim>\<open>NewPool(2)\<close> after two calls of \<^verbatim>\<open>SendJob\<close>.\<close>

definition st_full :: system where
  "st_full =
     st_fresh\<lparr>jobs := \<lparr>buf = [''Task 0'', ''Task 1''], cap = 2, closed = False, recvq = []\<rparr>,
       accepted := [''Task 0'', ''Task 1'']\<rparr>"

text \<open>
  \<^verbatim>\<open>NewPool(2)\<close> with two workers started, one job sent and received by worker 1; the
  same after \<^verbatim>\<open>RemoveWorker(0)\<close>; after worker 0 has taken its cancellation branch; and
  after it has deleted its entry.
\<close>

definition sched_two :: "action list" where
  "sched_two =
     [CallAddWorker, CallAddWorker, WStart 0, WStart 1, CallSendJob ''Task 0'', WSelectJob 1]"

definition st_two :: system where
  "st_two =
     \<lparr>workers = [(0, \<lparr>ID = 0, Cancel = 0\<rparr>), (1, \<lparr>ID = 1, Cancel = 1\<rparr>)],
      jobs = \<lparr>buf = [], cap = 2, closed = False, recvq = []\<rparr>, nextID = 2,
      wg = 2, ctxs = [False, False],
      procs = [\<lparr>g_id = 0, g_ctx = 0, g_pc = Selecting\<rparr>,
               \<lparr>g_id = 1, g_ctx = 1, g_pc = Processing ''Task 0''\<rparr>],
      out = [Started 0, Started 1], sd = NotCalled, accepted = [''Task 0''],
      delivered = [(1, ''Task 0'')]\<rparr>"

definition st_two_removed :: system where
  "st_two_removed = st_two\<lparr>ctxs := [True, False]\<rparr>"

definition st_two_returning :: system where
  "st_two_returning =
     st_two_removed\<lparr>procs := [\<lparr>g_id = 0, g_ctx = 0, g_pc = Returning\<rparr>,
                                \<lparr>g_id = 1, g_ctx = 1, g_pc = Processing ''Task 0''\<rparr>]\<rparr>"

definition st_two_gone :: system where
  "st_two_gone =
     st_two_removed\<lparr>workers := [(1, \<lparr>ID = 1, Cancel = 1\<rparr>)],
        procs := [\<lparr>g_id = 0, g_ctx = 0, g_pc = Deregistered\<rparr>,
                  \<lparr>g_id = 1, g_ctx = 1, g_pc = Processing ''Task 0''\<rparr>]\<rparr>"

text \<open>\<^verbatim>\<open>NewPool(0)\<close>, and the same pool with one worker parked in its \<^verbatim>\<open>select\<close>.\<close>

definition st_zero :: system where
  "st_zero = st_fresh\<lparr>jobs := \<lparr>buf = [], cap = 0, closed = False, recvq = []\<rparr>\<rparr>"

definition st_zero_parked :: system where
  "st_zero_parked =
     \<lparr>workers = [(0, \<lparr>ID = 0, Cancel = 0\<rparr>)],
      jobs = \<lparr>buf = [], cap = 0, closed = False, recvq = [0]\<rparr>, nextID = 1,
      wg = 1, ctxs = [False], procs = [\<lparr>g_id = 0, g_ctx = 0, g_pc = Parked\<rparr>],
      out = [Started 0], sd = NotCalled, accepted = [], delivered = []\<rparr>"

text \<open>
  \<^verbatim>\<open>NewPool(1)\<close>, one worker, one job sent while the worker is not waiting, then
  \<^verbatim>\<open>Shutdown\<close>: the worker takes its cancellation branch, deletes its entry and calls
  \<^verbatim>\<open>wg.Done()\<close>. The states before and after \<^verbatim>\<open>p.wg.Wait()\<close> returns, and after the
  worker's last \<^verbatim>\<open>Printf\<close>.
\<close>

definition sched_drop :: "action list" where
  "sched_drop =
     [CallAddWorker, WStart 0, CallSendJob ''Task 0'', ShutdownClose, ShutdownCancel,
      WSelectDone 0, WDeregister 0, WDone 0]"

definition st_drop_wait :: system where
  "st_drop_wait =
     \<lparr>workers = [], jobs = \<lparr>buf = [''Task 0''], cap = 1, closed = True, recvq = []\<rparr>,
      nextID = 1, wg = 0, ctxs = [True],
      procs = [\<lparr>g_id = 0, g_ctx = 0, g_pc = Signalled\<rparr>], out = [Started 0],
      sd = WorkersCancelled, accepted = [''Task 0''], delivered = []\<rparr>"

definition st_drop :: system where
  "st_drop = st_drop_wait\<lparr>sd := Returned\<rparr>"

definition st_drop_stopped :: system where
  "st_drop_stopped =
     st_drop\<lparr>procs := [\<lparr>g_id = 0, g_ctx = 0, g_pc = Stopped\<rparr>], out := [Started 0, StoppedEv 0]\<rparr>"

text \<open>
  \<^verbatim>\<open>NewPool(0)\<close>; a worker is added and removed before it has run; \<open>2\<^sup>6\<^sup>4\<close> more workers
  are added, the last of which gets the id 0 again; then the first worker runs, finds its
  context done and stands at the start of its deferred function. The state at the end
  of this schedule.
\<close>

definition sched_collide :: "action list" where
  "sched_collide =
     [CallAddWorker, CallRemoveWorker 0] @ replicate (2 ^ 64) CallAddWorker @
     [WStart 0, WSelectDone 0]"

definition st_collide :: system where
  "st_collide = (case run sched_collide st_zero of Next s \<Rightarrow> s | _ \<Rightarrow> st_zero)"

section \<open>Reading a schedule\<close>

text \<open>
  How often a goroutine must have run the \<^verbatim>\<open>delete\<close> and the \<^verbatim>\<open>wg.Done()\<close> of its
  deferred function, read off the place where it stands.
\<close>

definition deleted_count :: "system \<Rightarrow> nat \<Rightarrow> nat" where
  "deleted_count s g =
     (case pc_of s g of Some p \<Rightarrow> if registered p then 0 else 1 | None \<Rightarrow> 0)"

definition done_count :: "system \<Rightarrow> nat \<Rightarrow> nat" where
  "done_count s g =
     (case pc_of s g of Some p \<Rightarrow> if counted p then 0 else 1 | None \<Rightarrow> 0)"

text \<open>The goroutine that takes a step, for the steps of workers.\<close>

fun actor :: "action \<Rightarrow> nat option" where
  "actor (WStart g) = Some g"
| "actor (WPark g) = Some g"
| "actor (WSelectDone g) = Some g"
| "actor (WSelectJob g) = Some g"
| "actor (WProcess g) = Some g"
| "actor (WDeregister g) = Some g"
| "actor (WDone g) = Some g"
| "actor (WStop g) = Some g"
| "actor _ = None"



text \<open>The pool with two workers after the first and after the second statement of \<^verbatim>\<open>Shutdown\<close>.\<close>

definition st_two_closed :: system where
  "st_two_closed =
     st_two\<lparr>jobs := \<lparr>buf = [], cap = 2, closed = True, recvq = []\<rparr>, sd := QueueClosed\<rparr>"

definition st_two_cancelled :: system where
  "st_two_cancelled = st_two_closed\<lparr>ctxs := [True, True], sd := WorkersCancelled\<rparr>"

section \<open>Lemmas\<close>

subsection \<open>Induction over schedules\<close>

lemma run_invariant:
  assumes "run acts s0 = Next s" and "P s0"
    and "\<And>a s s'. P s \<Longrightarrow> step a s = Next s' \<Longrightarrow> P s'"
  shows "P s"
  using assms(1,2)
proof (induction acts arbitrary: s0)
  case Nil
  then show ?case by simp
next
  case (Cons a as)
  from Cons.prems(1) obtain s1 where s1: "step a s0 = Next s1" and r: "run as s1 = Next s"
    by (auto split: outcome.splits)
  from assms(3) [OF Cons.prems(2) s1] have "P s1" .
  with Cons.IH r show ?case by blast
qed

lemma run_append:
  "run (as @ bs) s = (case run as s of Next s1 \<Rightarrow> run bs s1 | Panic e \<Rightarrow> Panic e | Blocked \<Rightarrow> Blocked)"
  by (induction as arbitrary: s) (auto split: outcome.splits)

lemma run_snoc:
  "run (as @ [a]) s = (case run as s of Next s1 \<Rightarrow> step a s1 | Panic e \<Rightarrow> Panic e | Blocked \<Rightarrow> Blocked)"
  by (induction as arbitrary: s) (auto split: outcome.splits)

lemma run_trace_invariant:
  assumes "run acts s0 = Next s" and "P [] s0"
    and "\<And>as a s s'. run as s0 = Next s \<Longrightarrow> P as s \<Longrightarrow> step a s = Next s' \<Longrightarrow> P (as @ [a]) s'"
  shows "P acts s"
  using assms(1)
proof (induction acts arbitrary: s rule: rev_induct)
  case Nil
  with assms(2) show ?case by simp
next
  case (snoc a as)
  from snoc.prems obtain s1 where r: "run as s0 = Next s1" and s1: "step a s1 = Next s"
    by (auto simp: run_snoc split: outcome.splits)
  from assms(3) [OF r snoc.IH [OF r] s1] show ?case .
qed

subsection \<open>What the operations change and what they leave\<close>

lemma set_pc_frame [simp]:
  "workers (set_pc g p s) = workers s" "jobs (set_pc g p s) = jobs s"
  "nextID (set_pc g p s) = nextID s" "wg (set_pc g p s) = wg s"
  "ctxs (set_pc g p s) = ctxs s" "out (set_pc g p s) = out s" "sd (set_pc g p s) = sd s"
  "accepted (set_pc g p s) = accepted s" "delivered (set_pc g p s) = delivered s"
  "length (procs (set_pc g p s)) = length (procs s)"
  by (simp_all add: set_pc_def)

lemma upd_pc_proj:
  "g_id (xs[j := (xs ! j)\<lparr>g_pc := p\<rparr>] ! i) = g_id (xs ! i)"
  "g_ctx (xs[j := (xs ! j)\<lparr>g_pc := p\<rparr>] ! i) = g_ctx (xs ! i)"
  "g_pc (xs[j := (xs ! j)\<lparr>g_pc := p\<rparr>] ! i) = (if i = j \<and> j < length xs then p else g_pc (xs ! i))"
proof -
  show "g_id (xs[j := (xs ! j)\<lparr>g_pc := p\<rparr>] ! i) = g_id (xs ! i)"
    by (cases "j < length xs"; cases "i = j") (simp_all add: not_less list_update_beyond)
  show "g_ctx (xs[j := (xs ! j)\<lparr>g_pc := p\<rparr>] ! i) = g_ctx (xs ! i)"
    by (cases "j < length xs"; cases "i = j") (simp_all add: not_less list_update_beyond)
  show "g_pc (xs[j := (xs ! j)\<lparr>g_pc := p\<rparr>] ! i) = (if i = j \<and> j < length xs then p else g_pc (xs ! i))"
    by (cases "j < length xs"; cases "i = j") (simp_all add: not_less list_update_beyond)
qed

lemma set_pc_proc [simp]:
  "g_id (procs (set_pc g p s) ! i) = g_id (procs s ! i)"
  "g_ctx (procs (set_pc g p s) ! i) = g_ctx (procs s ! i)"
  "g_pc (procs (set_pc g p s) ! i) = (if i = g \<and> g < length (procs s) then p else g_pc (procs s ! i))"
  by (simp_all add: set_pc_def upd_pc_proj)

lemma pc_of_upd [simp]:
  "pc_of (s\<lparr>out := x1\<rparr>) = pc_of s" "pc_of (s\<lparr>jobs := x2\<rparr>) = pc_of s"
  "pc_of (s\<lparr>workers := x3\<rparr>) = pc_of s" "pc_of (s\<lparr>wg := x4\<rparr>) = pc_of s"
  "pc_of (s\<lparr>delivered := x5\<rparr>) = pc_of s" "pc_of (s\<lparr>sd := x6\<rparr>) = pc_of s"
  "pc_of (s\<lparr>accepted := x7\<rparr>) = pc_of s"
  by (simp_all add: pc_of_def fun_eq_iff)

lemma pc_of_SomeD: "pc_of s g = Some p \<Longrightarrow> g < length (procs s)"
  by (simp add: pc_of_def split: if_splits)

lemma pc_of_length [simp]: "pc_of s (length (procs s)) = None"
  by (simp add: pc_of_def)

lemma pc_of_set_pc [simp]:
  "pc_of (set_pc h p s) g = (if g = h \<and> h < length (procs s) then Some p else pc_of s g)"
  by (simp add: pc_of_def)

lemma cancel_frame [simp]:
  "workers (cancel c s) = workers s" "nextID (cancel c s) = nextID s" "wg (cancel c s) = wg s"
  "out (cancel c s) = out s" "sd (cancel c s) = sd s" "accepted (cancel c s) = accepted s"
  "delivered (cancel c s) = delivered s" "buf (jobs (cancel c s)) = buf (jobs s)"
  "cap (jobs (cancel c s)) = cap (jobs s)" "closed (jobs (cancel c s)) = closed (jobs s)"
  "length (procs (cancel c s)) = length (procs s)" "length (ctxs (cancel c s)) = length (ctxs s)"
  "recvq (jobs (cancel c s)) = filter (\<lambda>i. g_ctx (procs s ! i) \<noteq> c) (recvq (jobs s))"
  "ctxs (cancel c s) = (ctxs s)[c := True]"
  by (simp_all add: cancel_def)

lemma cancel_proc [simp]:
  "i < length (procs s) \<Longrightarrow> g_id (procs (cancel c s) ! i) = g_id (procs s ! i)"
  "i < length (procs s) \<Longrightarrow> g_ctx (procs (cancel c s) ! i) = g_ctx (procs s ! i)"
  "i < length (procs s) \<Longrightarrow> g_pc (procs (cancel c s) ! i) =
     (if g_pc (procs s ! i) = Parked \<and> g_ctx (procs s ! i) = c then Returning else g_pc (procs s ! i))"
  by (simp_all add: cancel_def)

lemma fold_cancel_invariant:
  assumes "P s" and "\<And>c s. P s \<Longrightarrow> P (cancel c s)"
  shows "P (fold (\<lambda>kw. cancel (Cancel (snd kw))) ws s)"
  using assms(1) by (induction ws arbitrary: s) (auto intro: assms(2))

lemma sd_fold_cancel [simp]: "sd (fold (\<lambda>kw. cancel (Cancel (snd kw))) ws s) = sd s"
  by (induction ws arbitrary: s) auto

lemma workers_fold_cancel [simp]:
  "workers (fold (\<lambda>kw. cancel (Cancel (snd kw))) ws s) = workers s"
  by (induction ws arbitrary: s) auto

lemma pc_of_cancel:
  "pc_of (cancel c s) g =
     (if pc_of s g = Some Parked \<and> g_ctx (procs s ! g) = c then Some Returning else pc_of s g)"
  by (simp add: pc_of_def)

lemma pc_of_AddWorker:
  "pc_of (snd (AddWorker s)) g = (if g = length (procs s) then Some Starting else pc_of s g)"
  by (auto simp: pc_of_def AddWorker_def Let_def nth_append)

lemma pc_of_close:
  "Shutdown_close s = Inr s' \<Longrightarrow>
     pc_of s' g = (if pc_of s g = Some Parked then Some Returning else pc_of s g)"
  by (auto simp: pc_of_def Shutdown_close_def split: if_splits)


lemma sd_AddWorker [simp]: "sd (snd (AddWorker s)) = sd s"
  by (simp add: AddWorker_def Let_def)

lemma sd_Shutdown_cancel [simp]: "sd (Shutdown_cancel s) = WorkersCancelled"
  by (simp add: Shutdown_cancel_def)

lemma set_AList_update: "x \<in> set (AList.update k v al) \<Longrightarrow> x = (k, v) \<or> x \<in> set al"
  by (induction al) (auto split: if_splits)

lemma set_AList_delete: "x \<in> set (AList.delete k al) \<longleftrightarrow> x \<in> set al \<and> fst x \<noteq> k"
  by (auto simp: AList.delete_eq)

lemma nth_update_True:
  "c < length xs \<Longrightarrow> xs[i := True] ! c \<longleftrightarrow> xs ! c \<or> i = c"
  by (cases "i = c") simp_all


lemma ctx_done_cancel: "ctx_done (cancel c s) d \<longleftrightarrow> ctx_done s d \<or> d = c \<and> c < length (ctxs s)"
  by (auto simp: ctx_done_def nth_update_True)



subsection \<open>The steps, case by case\<close>

text \<open>
  Two forms of the case analysis of a step: a property that every operation keeps is
  kept by every step, and the state after a step, for each action.
\<close>

lemma step_preserves:
  assumes st: "step a s = Next s'" and P: "P s"
    and add: "\<And>s. P s \<Longrightarrow> P (snd (AddWorker s))"
    and canc: "\<And>c s. P s \<Longrightarrow> P (cancel c s)"
    and send: "\<And>job s r s'. P s \<Longrightarrow> SendJob job s = Inr (r, s') \<Longrightarrow> P s'"
    and clos: "\<And>s s'. P s \<Longrightarrow> Shutdown_close s = Inr s' \<Longrightarrow> P s'"
    and sdc: "\<And>s. P s \<Longrightarrow> sd s = QueueClosed \<Longrightarrow> P (s\<lparr>sd := WorkersCancelled\<rparr>)"
    and sdw: "\<And>s. P s \<Longrightarrow> sd s = WorkersCancelled \<Longrightarrow> wg s = 0 \<Longrightarrow> P (s\<lparr>sd := Returned\<rparr>)"
    and wstart: "\<And>g s. P s \<Longrightarrow> pc_of s g = Some Starting \<Longrightarrow>
        P (set_pc g Selecting (s\<lparr>out := out s @ [Started (g_id (procs s ! g))]\<rparr>))"
    and wpark: "\<And>g s. P s \<Longrightarrow> pc_of s g = Some Selecting \<Longrightarrow> \<not> ctx_done s (g_ctx (procs s ! g)) \<Longrightarrow>
        buf (jobs s) = [] \<Longrightarrow> \<not> closed (jobs s) \<Longrightarrow>
        P (set_pc g Parked (s\<lparr>jobs := (jobs s)\<lparr>recvq := recvq (jobs s) @ [g]\<rparr>\<rparr>))"
    and wseld: "\<And>g s. P s \<Longrightarrow> pc_of s g = Some Selecting \<Longrightarrow> ctx_done s (g_ctx (procs s ! g)) \<Longrightarrow>
        P (set_pc g Returning s)"
    and wselj: "\<And>g s j js. P s \<Longrightarrow> pc_of s g = Some Selecting \<Longrightarrow> buf (jobs s) = j # js \<Longrightarrow>
        P (set_pc g (Processing j) (s\<lparr>jobs := (jobs s)\<lparr>buf := js\<rparr>, delivered := delivered s @ [(g, j)]\<rparr>))"
    and wselc: "\<And>g s. P s \<Longrightarrow> pc_of s g = Some Selecting \<Longrightarrow> buf (jobs s) = [] \<Longrightarrow> closed (jobs s) \<Longrightarrow>
        P (set_pc g Returning s)"
    and wproc: "\<And>g s j. P s \<Longrightarrow> pc_of s g = Some (Processing j) \<Longrightarrow>
        P (set_pc g Selecting (s\<lparr>out := out s @ [ProcessingJob (g_id (procs s ! g)) j]\<rparr>))"
    and wdereg: "\<And>g s. P s \<Longrightarrow> pc_of s g = Some Returning \<Longrightarrow>
        P (set_pc g Deregistered (s\<lparr>workers := AList.delete (g_id (procs s ! g)) (workers s)\<rparr>))"
    and wdone: "\<And>g s. P s \<Longrightarrow> pc_of s g = Some Deregistered \<Longrightarrow> 0 < wg s \<Longrightarrow>
        P (set_pc g Signalled (s\<lparr>wg := wg s - 1\<rparr>))"
    and wstop: "\<And>g s. P s \<Longrightarrow> pc_of s g = Some Signalled \<Longrightarrow>
        P (set_pc g Stopped (s\<lparr>out := out s @ [StoppedEv (g_id (procs s ! g))]\<rparr>))"
  shows "P s'"
proof (cases a)
  case CallAddWorker
  with st have "s' = snd (AddWorker s)" by (simp split: if_splits)
  with add [OF P] show ?thesis by simp
next
  case (CallRemoveWorker wid)
  with st have "s' = s \<or> (\<exists>c. s' = cancel c s)"
    by (auto simp: RemoveWorker_def split: option.splits if_splits)
  with P canc [OF P] show ?thesis by auto
next
  case (CallSendJob job)
  with st obtain r where "SendJob job s = Inr (r, s')" by (auto split: sum.splits if_splits)
  from send [OF P this] show ?thesis .
next
  case ShutdownClose
  with st have "Shutdown_close s = Inr s'" by (auto split: sum.splits if_splits)
  from clos [OF P this] show ?thesis .
next
  case ShutdownCancel
  with st have q: "sd s = QueueClosed" and s': "s' = Shutdown_cancel s" by (auto split: if_splits)
  have "P (fold (\<lambda>kw. cancel (Cancel (snd kw))) (workers s) s)"
    by (rule fold_cancel_invariant [OF P canc])
  from sdc [OF this] q s' show ?thesis by (simp add: Shutdown_cancel_def)
next
  case ShutdownWait
  with st have "sd s = WorkersCancelled" "wg s = 0" "s' = s\<lparr>sd := Returned\<rparr>"
    by (auto simp: Shutdown_wait_def split: if_splits)
  with sdw [OF P] show ?thesis by simp
next
  case (WStart g)
  with st have "pc_of s g = Some Starting"
    "s' = set_pc g Selecting (s\<lparr>out := out s @ [Started (g_id (procs s ! g))]\<rparr>)"
    by (auto simp: w_start_def split: if_splits)
  with wstart [OF P] show ?thesis by simp
next
  case (WPark g)
  with st have "pc_of s g = Some Selecting" "\<not> ctx_done s (g_ctx (procs s ! g))"
    "buf (jobs s) = []" "\<not> closed (jobs s)"
    "s' = set_pc g Parked (s\<lparr>jobs := (jobs s)\<lparr>recvq := recvq (jobs s) @ [g]\<rparr>\<rparr>)"
    by (auto simp: w_park_def split: if_splits)
  with wpark [OF P] show ?thesis by simp
next
  case (WSelectDone g)
  with st have "pc_of s g = Some Selecting" "ctx_done s (g_ctx (procs s ! g))"
    "s' = set_pc g Returning s"
    by (auto simp: w_select_done_def split: if_splits)
  with wseld [OF P] show ?thesis by simp
next
  case (WSelectJob g)
  with st have pc: "pc_of s g = Some Selecting"
    by (auto simp: w_select_job_def split: if_splits)
  show ?thesis
  proof (cases "buf (jobs s)")
    case Nil
    with st WSelectJob pc have "closed (jobs s)" "s' = set_pc g Returning s"
      by (auto simp: w_select_job_def split: if_splits)
    with wselc [OF P pc Nil] show ?thesis by simp
  next
    case (Cons j js)
    with st WSelectJob pc have
      "s' = set_pc g (Processing j) (s\<lparr>jobs := (jobs s)\<lparr>buf := js\<rparr>, delivered := delivered s @ [(g, j)]\<rparr>)"
      by (auto simp: w_select_job_def split: if_splits)
    with wselj [OF P pc Cons] show ?thesis by simp
  qed
next
  case (WProcess g)
  with st obtain j where "pc_of s g = Some (Processing j)"
    "s' = set_pc g Selecting (s\<lparr>out := out s @ [ProcessingJob (g_id (procs s ! g)) j]\<rparr>)"
    by (auto simp: w_process_def split: option.splits pc.splits)
  with wproc [OF P] show ?thesis by simp
next
  case (WDeregister g)
  with st have "pc_of s g = Some Returning"
    "s' = set_pc g Deregistered (s\<lparr>workers := AList.delete (g_id (procs s ! g)) (workers s)\<rparr>)"
    by (auto simp: w_deregister_def split: if_splits)
  with wdereg [OF P] show ?thesis by simp
next
  case (WDone g)
  with st have "pc_of s g = Some Deregistered" "0 < wg s"
    "s' = set_pc g Signalled (s\<lparr>wg := wg s - 1\<rparr>)"
    by (auto simp: w_done_def split: if_splits)
  with wdone [OF P] show ?thesis by simp
next
  case (WStop g)
  with st have "pc_of s g = Some Signalled"
    "s' = set_pc g Stopped (s\<lparr>out := out s @ [StoppedEv (g_id (procs s ! g))]\<rparr>)"
    by (auto simp: w_stop_def split: if_splits)
  with wstop [OF P] show ?thesis by simp
qed

lemma step_cases [consumes 1, case_names add remove_none remove send close cancel wait
    start park select_done select_job select_closed process deregister signal stop]:
  assumes st: "step a s = Next s'"
  obtains "a = CallAddWorker" "s' = snd (AddWorker s)" "caller_free s"
  | wid where "a = CallRemoveWorker wid" "map_of (workers s) wid = None" "s' = s"
      "caller_free s"
  | wid w where "a = CallRemoveWorker wid" "map_of (workers s) wid = Some w"
      "s' = cancel (Cancel w) s" "caller_free s"
  | job r where "a = CallSendJob job" "SendJob job s = Inr (r, s')" "caller_free s"
  | "a = ShutdownClose" "Shutdown_close s = Inr s'" "caller_free s"
  | "a = ShutdownCancel" "sd s = QueueClosed" "s' = Shutdown_cancel s"
  | "a = ShutdownWait" "sd s = WorkersCancelled" "wg s = 0" "s' = s\<lparr>sd := Returned\<rparr>"
  | g where "a = WStart g" "pc_of s g = Some Starting"
      "s' = set_pc g Selecting (s\<lparr>out := out s @ [Started (g_id (procs s ! g))]\<rparr>)"
  | g where "a = WPark g" "pc_of s g = Some Selecting" "\<not> ctx_done s (g_ctx (procs s ! g))"
      "buf (jobs s) = []" "\<not> closed (jobs s)"
      "s' = set_pc g Parked (s\<lparr>jobs := (jobs s)\<lparr>recvq := recvq (jobs s) @ [g]\<rparr>\<rparr>)"
  | g where "a = WSelectDone g" "pc_of s g = Some Selecting" "ctx_done s (g_ctx (procs s ! g))"
      "s' = set_pc g Returning s"
  | g j js where "a = WSelectJob g" "pc_of s g = Some Selecting" "buf (jobs s) = j # js"
      "s' = set_pc g (Processing j)
              (s\<lparr>jobs := (jobs s)\<lparr>buf := js\<rparr>, delivered := delivered s @ [(g, j)]\<rparr>)"
  | g where "a = WSelectJob g" "pc_of s g = Some Selecting" "buf (jobs s) = []"
      "closed (jobs s)" "s' = set_pc g Returning s"
  | g j where "a = WProcess g" "pc_of s g = Some (Processing j)"
      "s' = set_pc g Selecting (s\<lparr>out := out s @ [ProcessingJob (g_id (procs s ! g)) j]\<rparr>)"
  | g where "a = WDeregister g" "pc_of s g = Some Returning"
      "s' = set_pc g Deregistered
              (s\<lparr>workers := AList.delete (g_id (procs s ! g)) (workers s)\<rparr>)"
  | g where "a = WDone g" "pc_of s g = Some Deregistered" "0 < wg s"
      "s' = set_pc g Signalled (s\<lparr>wg := wg s - 1\<rparr>)"
  | g where "a = WStop g" "pc_of s g = Some Signalled"
      "s' = set_pc g Stopped (s\<lparr>out := out s @ [StoppedEv (g_id (procs s ! g))]\<rparr>)"
proof (cases a)
  case CallAddWorker
  with st have "s' = snd (AddWorker s)" "caller_free s" by (simp_all split: if_splits)
  with CallAddWorker that(1) show ?thesis by blast
next
  case (CallRemoveWorker wid)
  with st have f: "caller_free s" by (simp split: if_splits)
  show ?thesis
  proof (cases "map_of (workers s) wid")
    case None
    with st CallRemoveWorker f have "s' = s" by (simp add: RemoveWorker_def)
    with CallRemoveWorker None f that(2) show ?thesis by blast
  next
    case (Some w)
    with st CallRemoveWorker f have "s' = cancel (Cancel w) s" by (simp add: RemoveWorker_def)
    with CallRemoveWorker Some f that(3) show ?thesis by blast
  qed
next
  case (CallSendJob job)
  with st obtain r where "SendJob job s = Inr (r, s')" "caller_free s"
    by (auto split: sum.splits if_splits)
  with CallSendJob that(4) show ?thesis by blast
next
  case ShutdownClose
  with st have "Shutdown_close s = Inr s'" "caller_free s" by (auto split: sum.splits if_splits)
  with ShutdownClose that(5) show ?thesis by blast
next
  case ShutdownCancel
  with st have "sd s = QueueClosed" "s' = Shutdown_cancel s" by (auto split: if_splits)
  with ShutdownCancel that(6) show ?thesis by blast
next
  case ShutdownWait
  with st have "sd s = WorkersCancelled" "wg s = 0" "s' = s\<lparr>sd := Returned\<rparr>"
    by (auto simp: Shutdown_wait_def split: if_splits)
  with ShutdownWait that(7) show ?thesis by blast
next
  case (WStart g)
  with st have "pc_of s g = Some Starting"
    "s' = set_pc g Selecting (s\<lparr>out := out s @ [Started (g_id (procs s ! g))]\<rparr>)"
    by (auto simp: w_start_def split: if_splits)
  with WStart that(8) show ?thesis by blast
next
  case (WPark g)
  with st have "pc_of s g = Some Selecting" "\<not> ctx_done s (g_ctx (procs s ! g))"
    "buf (jobs s) = []" "\<not> closed (jobs s)"
    "s' = set_pc g Parked (s\<lparr>jobs := (jobs s)\<lparr>recvq := recvq (jobs s) @ [g]\<rparr>\<rparr>)"
    by (auto simp: w_park_def split: if_splits)
  with WPark that(9) show ?thesis by blast
next
  case (WSelectDone g)
  with st have "pc_of s g = Some Selecting" "ctx_done s (g_ctx (procs s ! g))"
    "s' = set_pc g Returning s"
    by (auto simp: w_select_done_def split: if_splits)
  with WSelectDone that(10) show ?thesis by blast
next
  case (WSelectJob g)
  with st have pc: "pc_of s g = Some Selecting"
    by (auto simp: w_select_job_def split: if_splits)
  show ?thesis
  proof (cases "buf (jobs s)")
    case Nil
    with st WSelectJob pc have "closed (jobs s)" "s' = set_pc g Returning s"
      by (auto simp: w_select_job_def split: if_splits)
    with WSelectJob pc Nil that(12) show ?thesis by blast
  next
    case (Cons j js)
    with st WSelectJob pc have
      "s' = set_pc g (Processing j)
              (s\<lparr>jobs := (jobs s)\<lparr>buf := js\<rparr>, delivered := delivered s @ [(g, j)]\<rparr>)"
      by (auto simp: w_select_job_def split: if_splits)
    with WSelectJob pc Cons that(11) show ?thesis by blast
  qed
next
  case (WProcess g)
  with st obtain j where "pc_of s g = Some (Processing j)"
    "s' = set_pc g Selecting (s\<lparr>out := out s @ [ProcessingJob (g_id (procs s ! g)) j]\<rparr>)"
    by (auto simp: w_process_def split: option.splits pc.splits)
  with WProcess that(13) show ?thesis by blast
next
  case (WDeregister g)
  with st have "pc_of s g = Some Returning"
    "s' = set_pc g Deregistered
            (s\<lparr>workers := AList.delete (g_id (procs s ! g)) (workers s)\<rparr>)"
    by (auto simp: w_deregister_def split: if_splits)
  with WDeregister that(14) show ?thesis by blast
next
  case (WDone g)
  with st have "pc_of s g = Some Deregistered" "0 < wg s"
    "s' = set_pc g Signalled (s\<lparr>wg := wg s - 1\<rparr>)"
    by (auto simp: w_done_def split: if_splits)
  with WDone that(15) show ?thesis by blast
next
  case (WStop g)
  with st have "pc_of s g = Some Signalled"
    "s' = set_pc g Stopped (s\<lparr>out := out s @ [StoppedEv (g_id (procs s ! g))]\<rparr>)"
    by (auto simp: w_stop_def split: if_splits)
  with WStop that(16) show ?thesis by blast
qed

subsection \<open>The invariants are kept by every step\<close>

lemma inv_ids_step:
  assumes "inv_ids s" and "step a s = Next s'"
  shows "inv_ids s'"
proof (rule step_preserves [OF assms(2), where P = inv_ids])
  fix s assume "inv_ids s" then show "inv_ids (snd (AddWorker s))"
    by (simp add: inv_ids_def AddWorker_def Let_def nth_append less_Suc_eq)
next
  fix job s r s' assume "inv_ids s" "SendJob job s = Inr (r, s')"
  then show "inv_ids s'"
    by (auto simp: inv_ids_def SendJob_def upd_pc_proj split: if_splits list.splits)
next
  fix s s' assume "inv_ids s" "Shutdown_close s = Inr s'"
  then show "inv_ids s'"
    by (auto simp: inv_ids_def Shutdown_close_def split: if_splits)
qed (use assms(1) in \<open>simp_all add: inv_ids_def\<close>)

lemma inv_q_AddWorker: "inv_q s \<Longrightarrow> inv_q (snd (AddWorker s))"
  by (auto simp: inv_q_def AddWorker_def Let_def nth_append)

lemma inv_q_cancel: "inv_q s \<Longrightarrow> inv_q (cancel c s)"
  by (auto simp: inv_q_def filter_empty_conv)

lemma inv_q_SendJob: "inv_q s \<Longrightarrow> SendJob job s = Inr (r, s') \<Longrightarrow> inv_q s'"
  by (auto simp: inv_q_def SendJob_def upd_pc_proj split: if_splits list.splits)

lemma inv_q_close: "inv_q s \<Longrightarrow> Shutdown_close s = Inr s' \<Longrightarrow> inv_q s'"
  by (auto simp: inv_q_def Shutdown_close_def split: if_splits)

lemma inv_q_step:
  assumes "inv_q s" and "step a s = Next s'"
  shows "inv_q s'"
proof (rule step_preserves [OF assms(2), where P = inv_q])
  fix job s r s' assume "inv_q s" "SendJob job s = Inr (r, s')"
  then show "inv_q s'" by (rule inv_q_SendJob)
next
  fix s s' assume "inv_q s" "Shutdown_close s = Inr s'"
  then show "inv_q s'" by (rule inv_q_close)
next
  fix g s assume "inv_q s" "pc_of s g = Some Selecting" "buf (jobs s) = []" "\<not> closed (jobs s)"
  then show "inv_q (set_pc g Parked (s\<lparr>jobs := (jobs s)\<lparr>recvq := recvq (jobs s) @ [g]\<rparr>\<rparr>))"
    by (auto simp: inv_q_def pc_of_def split: if_splits)
next
  fix s assume "inv_q s" then show "inv_q (snd (AddWorker s))" by (rule inv_q_AddWorker)
next
  fix c s assume "inv_q s" then show "inv_q (cancel c s)" by (rule inv_q_cancel)
qed (use assms(1) in \<open>auto simp: inv_q_def pc_of_def split: if_splits\<close>)

lemma step_preserves_q:
  assumes st: "step a s = Next s'" and q: "inv_q s" and P: "P s"
    and add: "\<And>s. inv_q s \<Longrightarrow> P s \<Longrightarrow> P (snd (AddWorker s))"
    and canc: "\<And>c s. inv_q s \<Longrightarrow> P s \<Longrightarrow> P (cancel c s)"
    and send: "\<And>job s r s'. inv_q s \<Longrightarrow> P s \<Longrightarrow> SendJob job s = Inr (r, s') \<Longrightarrow> P s'"
    and clos: "\<And>s s'. inv_q s \<Longrightarrow> P s \<Longrightarrow> Shutdown_close s = Inr s' \<Longrightarrow> P s'"
    and sdc: "\<And>s. inv_q s \<Longrightarrow> P s \<Longrightarrow> sd s = QueueClosed \<Longrightarrow> P (s\<lparr>sd := WorkersCancelled\<rparr>)"
    and sdw: "\<And>s. inv_q s \<Longrightarrow> P s \<Longrightarrow> sd s = WorkersCancelled \<Longrightarrow> wg s = 0 \<Longrightarrow>
        P (s\<lparr>sd := Returned\<rparr>)"
    and wstart: "\<And>g s. inv_q s \<Longrightarrow> P s \<Longrightarrow> pc_of s g = Some Starting \<Longrightarrow>
        P (set_pc g Selecting (s\<lparr>out := out s @ [Started (g_id (procs s ! g))]\<rparr>))"
    and wpark: "\<And>g s. inv_q s \<Longrightarrow> P s \<Longrightarrow> pc_of s g = Some Selecting \<Longrightarrow>
        \<not> ctx_done s (g_ctx (procs s ! g)) \<Longrightarrow> buf (jobs s) = [] \<Longrightarrow> \<not> closed (jobs s) \<Longrightarrow>
        P (set_pc g Parked (s\<lparr>jobs := (jobs s)\<lparr>recvq := recvq (jobs s) @ [g]\<rparr>\<rparr>))"
    and wseld: "\<And>g s. inv_q s \<Longrightarrow> P s \<Longrightarrow> pc_of s g = Some Selecting \<Longrightarrow>
        ctx_done s (g_ctx (procs s ! g)) \<Longrightarrow> P (set_pc g Returning s)"
    and wselj: "\<And>g s j js. inv_q s \<Longrightarrow> P s \<Longrightarrow> pc_of s g = Some Selecting \<Longrightarrow>
        buf (jobs s) = j # js \<Longrightarrow>
        P (set_pc g (Processing j) (s\<lparr>jobs := (jobs s)\<lparr>buf := js\<rparr>, delivered := delivered s @ [(g, j)]\<rparr>))"
    and wselc: "\<And>g s. inv_q s \<Longrightarrow> P s \<Longrightarrow> pc_of s g = Some Selecting \<Longrightarrow>
        buf (jobs s) = [] \<Longrightarrow> closed (jobs s) \<Longrightarrow> P (set_pc g Returning s)"
    and wproc: "\<And>g s j. inv_q s \<Longrightarrow> P s \<Longrightarrow> pc_of s g = Some (Processing j) \<Longrightarrow>
        P (set_pc g Selecting (s\<lparr>out := out s @ [ProcessingJob (g_id (procs s ! g)) j]\<rparr>))"
    and wdereg: "\<And>g s. inv_q s \<Longrightarrow> P s \<Longrightarrow> pc_of s g = Some Returning \<Longrightarrow>
        P (set_pc g Deregistered (s\<lparr>workers := AList.delete (g_id (procs s ! g)) (workers s)\<rparr>))"
    and wdone: "\<And>g s. inv_q s \<Longrightarrow> P s \<Longrightarrow> pc_of s g = Some Deregistered \<Longrightarrow> 0 < wg s \<Longrightarrow>
        P (set_pc g Signalled (s\<lparr>wg := wg s - 1\<rparr>))"
    and wstop: "\<And>g s. inv_q s \<Longrightarrow> P s \<Longrightarrow> pc_of s g = Some Signalled \<Longrightarrow>
        P (set_pc g Stopped (s\<lparr>out := out s @ [StoppedEv (g_id (procs s ! g))]\<rparr>))"
  shows "P s'"
proof -
  have "inv_q s' \<and> P s'"
  proof (rule step_preserves [OF st, where P = "\<lambda>s. inv_q s \<and> P s"])
    show "inv_q s \<and> P s" using q P ..
  next
    fix s assume "inv_q s \<and> P s"
    then show "inv_q (snd (AddWorker s)) \<and> P (snd (AddWorker s))"
      using inv_q_AddWorker add by simp
  next
    fix c s assume "inv_q s \<and> P s"
    then show "inv_q (cancel c s) \<and> P (cancel c s)"
      using inv_q_cancel canc by simp
  next
    fix job s r s' assume "inv_q s \<and> P s" "SendJob job s = Inr (r, s')"
    then show "inv_q s' \<and> P s'"
      using inv_q_SendJob [of s job r s'] send [of s job r s'] by simp
  next
    fix s s' assume "inv_q s \<and> P s" "Shutdown_close s = Inr s'"
    then show "inv_q s' \<and> P s'"
      using inv_q_close [of s s'] clos [of s s'] by simp
  next
    fix s assume "inv_q s \<and> P s" "sd s = QueueClosed"
    then show "inv_q (s\<lparr>sd := WorkersCancelled\<rparr>) \<and> P (s\<lparr>sd := WorkersCancelled\<rparr>)"
      using sdc [of s] by (simp add: inv_q_def)
  next
    fix s assume "inv_q s \<and> P s" "sd s = WorkersCancelled" "wg s = 0"
    then show "inv_q (s\<lparr>sd := Returned\<rparr>) \<and> P (s\<lparr>sd := Returned\<rparr>)"
      using sdw [of s] by (simp add: inv_q_def)
  next
    fix g s assume a: "inv_q s \<and> P s" "pc_of s g = Some Starting"
    then show "inv_q (set_pc g Selecting (s\<lparr>out := out s @ [Started (g_id (procs s ! g))]\<rparr>)) \<and>
        P (set_pc g Selecting (s\<lparr>out := out s @ [Started (g_id (procs s ! g))]\<rparr>))"
      using inv_q_step [of s "WStart g"] wstart [of s g] by (simp add: w_start_def)
  next
    fix g s assume a: "inv_q s \<and> P s" "pc_of s g = Some Selecting"
      "\<not> ctx_done s (g_ctx (procs s ! g))" "buf (jobs s) = []" "\<not> closed (jobs s)"
    then show "inv_q (set_pc g Parked (s\<lparr>jobs := (jobs s)\<lparr>recvq := recvq (jobs s) @ [g]\<rparr>\<rparr>)) \<and>
        P (set_pc g Parked (s\<lparr>jobs := (jobs s)\<lparr>recvq := recvq (jobs s) @ [g]\<rparr>\<rparr>))"
      using inv_q_step [of s "WPark g"] wpark [of s g] by (simp add: w_park_def)
  next
    fix g s assume a: "inv_q s \<and> P s" "pc_of s g = Some Selecting" "ctx_done s (g_ctx (procs s ! g))"
    then show "inv_q (set_pc g Returning s) \<and> P (set_pc g Returning s)"
      using inv_q_step [of s "WSelectDone g"] wseld [of s g] by (simp add: w_select_done_def)
  next
    fix g s j js assume a: "inv_q s \<and> P s" "pc_of s g = Some Selecting" "buf (jobs s) = j # js"
    then show "inv_q (set_pc g (Processing j) (s\<lparr>jobs := (jobs s)\<lparr>buf := js\<rparr>, delivered := delivered s @ [(g, j)]\<rparr>)) \<and>
        P (set_pc g (Processing j) (s\<lparr>jobs := (jobs s)\<lparr>buf := js\<rparr>, delivered := delivered s @ [(g, j)]\<rparr>))"
      using inv_q_step [of s "WSelectJob g"] wselj [of s g j js] by (simp add: w_select_job_def)
  next
    fix g s assume a: "inv_q s \<and> P s" "pc_of s g = Some Selecting" "buf (jobs s) = []" "closed (jobs s)"
    then show "inv_q (set_pc g Returning s) \<and> P (set_pc g Returning s)"
      using inv_q_step [of s "WSelectJob g"] wselc [of s g] by (simp add: w_select_job_def)
  next
    fix g s j assume a: "inv_q s \<and> P s" "pc_of s g = Some (Processing j)"
    then show "inv_q (set_pc g Selecting (s\<lparr>out := out s @ [ProcessingJob (g_id (procs s ! g)) j]\<rparr>)) \<and>
        P (set_pc g Selecting (s\<lparr>out := out s @ [ProcessingJob (g_id (procs s ! g)) j]\<rparr>))"
      using inv_q_step [of s "WProcess g"] wproc [of s g j] by (simp add: w_process_def)
  next
    fix g s assume a: "inv_q s \<and> P s" "pc_of s g = Some Returning"
    then show "inv_q (set_pc g Deregistered (s\<lparr>workers := AList.delete (g_id (procs s ! g)) (workers s)\<rparr>)) \<and>
        P (set_pc g Deregistered (s\<lparr>workers := AList.delete (g_id (procs s ! g)) (workers s)\<rparr>))"
      using inv_q_step [of s "WDeregister g"] wdereg [of s g] by (simp add: w_deregister_def)
  next
    fix g s assume a: "inv_q s \<and> P s" "pc_of s g = Some Deregistered" "0 < wg s"
    then show "inv_q (set_pc g Signalled (s\<lparr>wg := wg s - 1\<rparr>)) \<and> P (set_pc g Signalled (s\<lparr>wg := wg s - 1\<rparr>))"
      using inv_q_step [of s "WDone g"] wdone [of s g] by (simp add: w_done_def)
  next
    fix g s assume a: "inv_q s \<and> P s" "pc_of s g = Some Signalled"
    then show "inv_q (set_pc g Stopped (s\<lparr>out := out s @ [StoppedEv (g_id (procs s ! g))]\<rparr>)) \<and>
        P (set_pc g Stopped (s\<lparr>out := out s @ [StoppedEv (g_id (procs s ! g))]\<rparr>))"
      using inv_q_step [of s "WStop g"] wstop [of s g] by (simp add: w_stop_def)
  qed
  then show ?thesis ..
qed

lemma filter_upd_count:
  "j < length xs \<Longrightarrow>
     length (filter P (xs[j := y])) + (if P (xs ! j) then 1 else 0) =
     length (filter P xs) + (if P y then 1 else 0)"
proof (induction xs arbitrary: j)
  case Nil
  then show ?case by simp
next
  case (Cons x xs)
  show ?case
  proof (cases j)
    case 0
    then show ?thesis by simp
  next
    case (Suc k)
    with Cons.prems have "k < length xs" by simp
    from Cons.IH [OF this] Suc show ?thesis by simp
  qed
qed

lemma live_map:
  "(\<And>x. counted (g_pc (f x)) = counted (g_pc x)) \<Longrightarrow>
     length (filter (\<lambda>g. counted (g_pc g)) (map f xs)) = length (filter (\<lambda>g. counted (g_pc g)) xs)"
  by (induction xs) auto

lemma live_set_pc:
  "g < length (procs s) \<Longrightarrow>
     live (set_pc g p s) + (if counted (g_pc (procs s ! g)) then 1 else 0) =
     live s + (if counted p then 1 else 0)"
  using filter_upd_count [of g "procs s" "\<lambda>g. counted (g_pc g)" "(procs s ! g)\<lparr>g_pc := p\<rparr>"]
  by (simp add: live_def set_pc_def)

lemma live_cancel [simp]: "live (cancel c s) = live s"
proof -
  have "procs (cancel c s) =
      map (\<lambda>g. if g_pc g = Parked \<and> g_ctx g = c then g\<lparr>g_pc := Returning\<rparr> else g) (procs s)"
    by (simp add: cancel_def)
  then show ?thesis unfolding live_def by (simp only: live_map) (rule live_map, simp)
qed

lemma live_close:
  "length (filter (\<lambda>g. counted (g_pc g))
      (map (\<lambda>g. if g_pc g = Parked then g\<lparr>g_pc := Returning\<rparr> else g) xs)) =
   length (filter (\<lambda>g. counted (g_pc g)) xs)"
  by (rule live_map) simp

lemma live_upd [simp]:
  "live (s\<lparr>out := x1\<rparr>) = live s" "live (s\<lparr>jobs := x2\<rparr>) = live s"
  "live (s\<lparr>workers := x3\<rparr>) = live s" "live (s\<lparr>wg := x4\<rparr>) = live s"
  "live (s\<lparr>delivered := x5\<rparr>) = live s" "live (s\<lparr>sd := x6\<rparr>) = live s"
  "live (s\<lparr>accepted := x7\<rparr>) = live s"
  by (simp_all add: live_def)

lemma inv_wg_set_pc:
  "inv_wg s \<Longrightarrow> pc_of s g = Some q \<Longrightarrow> counted q \<Longrightarrow> counted p \<Longrightarrow> inv_wg (set_pc g p s)"
  using live_set_pc [of g s p] by (auto simp: inv_wg_def pc_of_def split: if_splits)

lemma inv_wg_upd [simp]:
  "inv_wg (s\<lparr>out := x1\<rparr>) = inv_wg s" "inv_wg (s\<lparr>jobs := x2\<rparr>) = inv_wg s"
  "inv_wg (s\<lparr>workers := x3\<rparr>) = inv_wg s"
  "inv_wg (s\<lparr>delivered := x5\<rparr>) = inv_wg s" "inv_wg (s\<lparr>sd := x6\<rparr>) = inv_wg s"
  "inv_wg (s\<lparr>accepted := x7\<rparr>) = inv_wg s"
  by (simp_all add: inv_wg_def)

lemma inv_wg_step:
  assumes "inv_q s" and "inv_wg s" and "step a s = Next s'"
  shows "inv_wg s'"
proof (rule step_preserves_q [OF assms(3,1), where P = inv_wg])
  show "inv_wg s" by fact
next
  fix s assume "inv_wg s"
  then show "inv_wg (snd (AddWorker s))"
    by (simp add: inv_wg_def live_def AddWorker_def Let_def)
next
  fix job s r s' assume a: "inv_q s" "inv_wg s" "SendJob job s = Inr (r, s')"
  show "inv_wg s'"
  proof (cases "recvq (jobs s)")
    case Nil
    with a show ?thesis by (auto simp: SendJob_def split: if_splits)
  next
    case (Cons g q)
    with a have "pc_of s g = Some Parked" by (simp add: inv_q_def pc_of_def)
    from inv_wg_set_pc [OF _ this, of "Processing job"] a Cons show ?thesis
      by (auto simp: SendJob_def set_pc_def inv_wg_def live_def split: if_splits)
  qed
next
  fix s s' assume a: "inv_wg s" "Shutdown_close s = Inr s'"
  then have e: "wg s' = wg s"
    "procs s' = map (\<lambda>g. if g_pc g = Parked then g\<lparr>g_pc := Returning\<rparr> else g) (procs s)"
    by (auto simp: Shutdown_close_def split: if_splits)
  have "live s' = live s" unfolding live_def e(2) by (rule live_close)
  with a e show "inv_wg s'" by (simp add: inv_wg_def)
next
  fix g s assume a: "inv_wg s" "pc_of s g = Some Deregistered" "0 < wg s"
  then show "inv_wg (set_pc g Signalled (s\<lparr>wg := wg s - 1\<rparr>))"
    using live_set_pc [of g "s\<lparr>wg := wg s - 1\<rparr>" Signalled]
    by (auto simp: inv_wg_def pc_of_def split: if_splits)
next
  fix g s assume a: "inv_wg s" "pc_of s g = Some Signalled"
  then show "inv_wg (set_pc g Stopped (s\<lparr>out := out s @ [StoppedEv (g_id (procs s ! g))]\<rparr>))"
    using live_set_pc [of g "s\<lparr>out := out s @ [StoppedEv (g_id (procs s ! g))]\<rparr>" Stopped]
    by (auto simp: inv_wg_def pc_of_def split: if_splits)
next
  fix c s assume "inv_wg s" then show "inv_wg (cancel c s)" by (simp add: inv_wg_def)
next
  fix g s assume "inv_wg s" "pc_of s g = Some Starting"
  then show "inv_wg (set_pc g Selecting (s\<lparr>out := out s @ [Started (g_id (procs s ! g))]\<rparr>))"
    by (intro inv_wg_set_pc [where q = Starting]) simp_all
next
  fix g s assume "inv_wg s" "pc_of s g = Some Selecting"
  then show "inv_wg (set_pc g Parked (s\<lparr>jobs := (jobs s)\<lparr>recvq := recvq (jobs s) @ [g]\<rparr>\<rparr>))"
    by (intro inv_wg_set_pc [where q = Selecting]) simp_all
next
  fix g s assume "inv_wg s" "pc_of s g = Some Selecting" "ctx_done s (g_ctx (procs s ! g))"
  then show "inv_wg (set_pc g Returning s)"
    by (intro inv_wg_set_pc [where q = Selecting]) simp_all
next
  fix g s assume "inv_wg s" "pc_of s g = Some Selecting" "closed (jobs s)"
  then show "inv_wg (set_pc g Returning s)"
    by (intro inv_wg_set_pc [where q = Selecting]) simp_all
next
  fix g s j js assume "inv_wg s" "pc_of s g = Some Selecting"
  then show "inv_wg (set_pc g (Processing j) (s\<lparr>jobs := (jobs s)\<lparr>buf := js\<rparr>, delivered := delivered s @ [(g, j)]\<rparr>))"
    by (intro inv_wg_set_pc [where q = Selecting]) simp_all
next
  fix g s j assume "inv_wg s" "pc_of s g = Some (Processing j)"
  then show "inv_wg (set_pc g Selecting (s\<lparr>out := out s @ [ProcessingJob (g_id (procs s ! g)) j]\<rparr>))"
    by (intro inv_wg_set_pc [where q = "Processing j"]) simp_all
next
  fix g s assume "inv_wg s" "pc_of s g = Some Returning"
  then show "inv_wg (set_pc g Deregistered (s\<lparr>workers := AList.delete (g_id (procs s ! g)) (workers s)\<rparr>))"
    by (intro inv_wg_set_pc [where q = Returning]) simp_all
qed (simp_all add: inv_wg_def)

lemma inv_reg_set_pc:
  assumes "inv_reg s" and "registered p \<or> (\<exists>q. pc_of s g = Some q \<and> \<not> registered q)"
  shows "inv_reg (set_pc g p s)"
  unfolding inv_reg_def
proof (intro ballI conjI)
  fix kw assume kw: "kw \<in> set (workers (set_pc g p s))"
  with assms(1) obtain i where i: "i < length (procs s)" "g_id (procs s ! i) = fst kw"
    "g_ctx (procs s ! i) = Cancel (snd kw)" "registered (g_pc (procs s ! i))" and c: "Cancel (snd kw) < length (ctxs s)"
    by (auto simp: inv_reg_def)
  from c show "Cancel (snd kw) < length (ctxs (set_pc g p s))" by simp
  from assms(2) i have "registered (g_pc (procs (set_pc g p s) ! i))"
    by (auto simp: pc_of_def split: if_splits)
  with i show "\<exists>i<length (procs (set_pc g p s)). g_id (procs (set_pc g p s) ! i) = fst kw \<and> g_ctx (procs (set_pc g p s) ! i) = Cancel (snd kw) \<and>
      registered (g_pc (procs (set_pc g p s) ! i))"
    by auto
qed

lemma inv_reg_upd [simp]:
  "inv_reg (s\<lparr>out := x1\<rparr>) = inv_reg s" "inv_reg (s\<lparr>jobs := x2\<rparr>) = inv_reg s"
  "inv_reg (s\<lparr>wg := x4\<rparr>) = inv_reg s"
  "inv_reg (s\<lparr>delivered := x5\<rparr>) = inv_reg s" "inv_reg (s\<lparr>sd := x6\<rparr>) = inv_reg s"
  "inv_reg (s\<lparr>accepted := x7\<rparr>) = inv_reg s"
  by (simp_all add: inv_reg_def)

lemma inv_reg_AddWorker: "inv_reg s \<Longrightarrow> inv_reg (snd (AddWorker s))"
  unfolding inv_reg_def
proof (intro ballI)
  fix kw assume inv: "\<forall>kw\<in>set (workers s).
        (\<exists>i<length (procs s). g_id (procs s ! i) = fst kw \<and> g_ctx (procs s ! i) = Cancel (snd kw) \<and>
           registered (g_pc (procs s ! i))) \<and>
        Cancel (snd kw) < length (ctxs s)"
    and "kw \<in> set (workers (snd (AddWorker s)))"
  then have "kw = (nextID s, \<lparr>ID = nextID s, Cancel = length (ctxs s)\<rparr>) \<or> kw \<in> set (workers s)"
    by (auto simp: AddWorker_def Let_def dest: set_AList_update)
  then show "(\<exists>i<length (procs (snd (AddWorker s))). g_id (procs (snd (AddWorker s)) ! i) = fst kw \<and> g_ctx (procs (snd (AddWorker s)) ! i) = Cancel (snd kw) \<and>
        registered (g_pc (procs (snd (AddWorker s)) ! i))) \<and>
        Cancel (snd kw) < length (ctxs (snd (AddWorker s)))"
  proof
    assume "kw = (nextID s, \<lparr>ID = nextID s, Cancel = length (ctxs s)\<rparr>)"
    then show ?thesis
      by (auto simp: AddWorker_def Let_def intro!: exI [of _ "length (procs s)"])
  next
    assume "kw \<in> set (workers s)"
    with inv obtain i where "i < length (procs s)" "g_id (procs s ! i) = fst kw"
      "g_ctx (procs s ! i) = Cancel (snd kw)" "registered (g_pc (procs s ! i))" "Cancel (snd kw) < length (ctxs s)" by blast
    then show ?thesis
      by (auto simp: AddWorker_def Let_def nth_append intro!: exI [of _ i])
  qed
qed

lemma inv_reg_cancel: "inv_reg s \<Longrightarrow> inv_reg (cancel c s)"
  unfolding inv_reg_def
proof (intro ballI)
  fix kw assume inv: "\<forall>kw\<in>set (workers s).
        (\<exists>i<length (procs s). g_id (procs s ! i) = fst kw \<and> g_ctx (procs s ! i) = Cancel (snd kw) \<and>
           registered (g_pc (procs s ! i))) \<and>
        Cancel (snd kw) < length (ctxs s)"
    and "kw \<in> set (workers (cancel c s))"
  then obtain i where "i < length (procs s)" "g_id (procs s ! i) = fst kw"
      "g_ctx (procs s ! i) = Cancel (snd kw)" "registered (g_pc (procs s ! i))" "Cancel (snd kw) < length (ctxs s)" by auto
  then show "(\<exists>i<length (procs (cancel c s)). g_id (procs (cancel c s) ! i) = fst kw \<and> g_ctx (procs (cancel c s) ! i) = Cancel (snd kw) \<and>
        registered (g_pc (procs (cancel c s) ! i))) \<and> Cancel (snd kw) < length (ctxs (cancel c s))"
    by (auto intro!: exI [of _ i])
qed

lemma inv_reg_close:
  assumes "inv_reg s" and "Shutdown_close s = Inr s'"
  shows "inv_reg s'"
  unfolding inv_reg_def
proof (intro ballI)
  from assms(2) have e: "workers s' = workers s" "ctxs s' = ctxs s"
    "procs s' = map (\<lambda>g. if g_pc g = Parked then g\<lparr>g_pc := Returning\<rparr> else g) (procs s)"
    by (auto simp: Shutdown_close_def split: if_splits)
  fix kw assume "kw \<in> set (workers s')"
  with assms(1) e obtain i where "i < length (procs s)" "g_id (procs s ! i) = fst kw"
      "g_ctx (procs s ! i) = Cancel (snd kw)" "registered (g_pc (procs s ! i))" "Cancel (snd kw) < length (ctxs s)"
    by (auto simp: inv_reg_def)
  then show "(\<exists>i<length (procs s'). g_id (procs s' ! i) = fst kw \<and> g_ctx (procs s' ! i) = Cancel (snd kw) \<and>
        registered (g_pc (procs s' ! i))) \<and> Cancel (snd kw) < length (ctxs s')"
    unfolding e by (auto intro!: exI [of _ i])
qed

lemma inv_reg_SendJob:
  assumes "inv_reg s" and "SendJob job s = Inr (r, s')"
  shows "inv_reg s'"
proof (cases "recvq (jobs s)")
  case Nil
  with assms show ?thesis by (auto simp: SendJob_def split: if_splits)
next
  case (Cons g q)
  with assms(2) have "s' = set_pc g (Processing job)
      (s\<lparr>jobs := (jobs s)\<lparr>recvq := q\<rparr>, accepted := accepted s @ [job], delivered := delivered s @ [(g, job)]\<rparr>)"
    by (auto simp: SendJob_def set_pc_def split: if_splits)
  with assms(1) show ?thesis by (simp add: inv_reg_set_pc)
qed

lemma inv_reg_deregister:
  assumes "inv_reg s" and "pc_of s g = Some Returning"
  shows "inv_reg (set_pc g Deregistered (s\<lparr>workers := AList.delete (g_id (procs s ! g)) (workers s)\<rparr>))"
  unfolding inv_reg_def
proof (intro ballI)
  let ?s' = "set_pc g Deregistered (s\<lparr>workers := AList.delete (g_id (procs s ! g)) (workers s)\<rparr>)"
  fix kw assume "kw \<in> set (workers ?s')"
  then have kw: "kw \<in> set (workers s)" "fst kw \<noteq> g_id (procs s ! g)"
    by (simp_all add: set_AList_delete)
  with assms(1) obtain i where i: "i < length (procs s)" "g_id (procs s ! i) = fst kw"
      "g_ctx (procs s ! i) = Cancel (snd kw)" "registered (g_pc (procs s ! i))" "Cancel (snd kw) < length (ctxs s)"
    by (auto simp: inv_reg_def)
  with kw have "i \<noteq> g" by auto
  with i show "(\<exists>i<length (procs ?s'). g_id (procs ?s' ! i) = fst kw \<and> g_ctx (procs ?s' ! i) = Cancel (snd kw) \<and>
        registered (g_pc (procs ?s' ! i))) \<and> Cancel (snd kw) < length (ctxs ?s')"
    by (auto intro!: exI [of _ i])
qed

lemma inv_reg_step:
  assumes "inv_reg s" and "step a s = Next s'"
  shows "inv_reg s'"
proof (rule step_preserves [OF assms(2), where P = inv_reg])
  show "inv_reg s" by fact
next
  fix g s assume "inv_reg s" "pc_of s g = Some Returning"
  then show "inv_reg (set_pc g Deregistered (s\<lparr>workers := AList.delete (g_id (procs s ! g)) (workers s)\<rparr>))"
    by (rule inv_reg_deregister)
next
  fix g s assume "inv_reg s" "pc_of s g = Some Deregistered"
  then show "inv_reg (set_pc g Signalled (s\<lparr>wg := wg s - 1\<rparr>))"
    by (intro inv_reg_set_pc) auto
next
  fix g s assume "inv_reg s" "pc_of s g = Some Signalled"
  then show "inv_reg (set_pc g Stopped (s\<lparr>out := out s @ [StoppedEv (g_id (procs s ! g))]\<rparr>))"
    by (intro inv_reg_set_pc) auto
next
  fix job s r s' assume "inv_reg s" "SendJob job s = Inr (r, s')"
  then show "inv_reg s'" by (rule inv_reg_SendJob)
next
  fix s s' assume "inv_reg s" "Shutdown_close s = Inr s'"
  then show "inv_reg s'" by (rule inv_reg_close)
qed (simp_all add: inv_reg_AddWorker inv_reg_cancel inv_reg_set_pc)

lemma inv_hist_step:
  assumes "inv_q s" and "inv_hist s" and "step a s = Next s'"
  shows "inv_hist s'"
proof (rule step_preserves_q [OF assms(3,1), where P = inv_hist])
  show "inv_hist s" by fact
next
  fix s assume "inv_hist s"
  then show "inv_hist (snd (AddWorker s))"
    by (auto simp: inv_hist_def AddWorker_def Let_def)
next
  fix job s r s' assume a: "inv_q s" "inv_hist s" "SendJob job s = Inr (r, s')"
  then show "inv_hist s'"
    by (fastforce simp: inv_hist_def inv_q_def SendJob_def split: if_splits list.splits)
next
  fix s s' assume a: "inv_hist s" "Shutdown_close s = Inr s'"
  then have "delivered s' = delivered s" "accepted s' = accepted s" "buf (jobs s') = buf (jobs s)"
    "length (procs s') = length (procs s)"
    by (auto simp: Shutdown_close_def split: if_splits)
  with a(1) show "inv_hist s'"
    by (simp add: inv_hist_def)
next
  fix g s j js assume "inv_hist s" "pc_of s g = Some Selecting" "buf (jobs s) = j # js"
  then show "inv_hist (set_pc g (Processing j) (s\<lparr>jobs := (jobs s)\<lparr>buf := js\<rparr>, delivered := delivered s @ [(g, j)]\<rparr>))"
    by (auto simp: inv_hist_def pc_of_def split: if_splits)
qed (auto simp: inv_hist_def)

lemma inv_sd_step:
  assumes "inv_sd s" and "step a s = Next s'"
  shows "inv_sd s'"
proof (rule step_preserves [OF assms(2), where P = inv_sd])
  show "inv_sd s" by fact
next
  fix s assume "inv_sd s"
  then show "inv_sd (snd (AddWorker s))"
    by (auto simp: inv_sd_def AddWorker_def Let_def)
next
  fix job s r s' assume a: "inv_sd s" "SendJob job s = Inr (r, s')"
  then show "inv_sd s'"
    by (auto simp: inv_sd_def SendJob_def split: if_splits list.splits)
next
  fix s s' assume a: "inv_sd s" "Shutdown_close s = Inr s'"
  then show "inv_sd s'"
    by (auto simp: inv_sd_def Shutdown_close_def split: if_splits)
qed (auto simp: inv_sd_def)

lemma closed_step:
  assumes "closed (jobs s)" and "step a s = Next s'"
  shows "closed (jobs s')"
proof (rule step_preserves [OF assms(2), where P = "\<lambda>s. closed (jobs s)"])
  show "closed (jobs s)" by fact
next
  fix s :: system assume "closed (jobs s)"
  then show "closed (jobs (snd (AddWorker s)))"
    by (auto simp: AddWorker_def Let_def)
next
  fix job s r s' assume a: "closed (jobs s)" "SendJob job s = Inr (r, s')"
  then show "closed (jobs s')"
    by (auto simp: SendJob_def split: if_splits list.splits)
next
  fix s s' assume a: "closed (jobs s)" "Shutdown_close s = Inr s'"
  then show "closed (jobs s')"
    by (auto simp: Shutdown_close_def split: if_splits)
qed auto

lemma cap_step:
  assumes "step a s = Next s'"
  shows "cap (jobs s') = cap (jobs s)"
proof (rule step_preserves [OF assms, where P = "\<lambda>t. cap (jobs t) = cap (jobs s)"])
  fix t :: system assume "cap (jobs t) = cap (jobs s)"
  then show "cap (jobs (snd (AddWorker t))) = cap (jobs s)"
    by (auto simp: AddWorker_def Let_def)
next
  fix job t r s' assume a: "cap (jobs t) = cap (jobs s)" "SendJob job t = Inr (r, s')"
  then show "cap (jobs s') = cap (jobs s)"
    by (auto simp: SendJob_def split: if_splits list.splits)
next
  fix t s' assume a: "cap (jobs t) = cap (jobs s)" "Shutdown_close t = Inr s'"
  then show "cap (jobs s') = cap (jobs s)"
    by (auto simp: Shutdown_close_def split: if_splits)
qed auto

lemma procs_length_step:
  assumes "step a s = Next s'"
  shows "length (procs s) \<le> length (procs s')"
proof (rule step_preserves [OF assms, where P = "\<lambda>t. length (procs s) \<le> length (procs t)"])
  fix t :: system assume "length (procs s) \<le> length (procs t)"
  then show "length (procs s) \<le> length (procs (snd (AddWorker t)))"
    by (simp add: AddWorker_def Let_def)
next
  fix job t r s' assume "length (procs s) \<le> length (procs t)" "SendJob job t = Inr (r, s')"
  then show "length (procs s) \<le> length (procs s')"
    by (auto simp: SendJob_def split: if_splits list.splits)
next
  fix t s' assume "length (procs s) \<le> length (procs t)" "Shutdown_close t = Inr s'"
  then show "length (procs s) \<le> length (procs s')"
    by (auto simp: Shutdown_close_def split: if_splits)
qed simp_all

lemma registry_keys_step:
  assumes "distinct (map fst (workers s))" and "step a s = Next s'"
  shows "distinct (map fst (workers s'))"
proof (rule step_preserves [OF assms(2), where P = "\<lambda>s. distinct (map fst (workers s))"])
  show "distinct (map fst (workers s))" by fact
next
  fix s :: system assume "distinct (map fst (workers s))"
  then show "distinct (map fst (workers (snd (AddWorker s))))"
    by (simp add: AddWorker_def Let_def AList.distinct_update)
next
  fix job s r s' assume "distinct (map fst (workers s))" "SendJob job s = Inr (r, s')"
  then show "distinct (map fst (workers s'))"
    by (auto simp: SendJob_def split: if_splits list.splits)
next
  fix s s' assume "distinct (map fst (workers s))" "Shutdown_close s = Inr s'"
  then show "distinct (map fst (workers s'))"
    by (auto simp: Shutdown_close_def split: if_splits)
qed (simp_all add: AList.distinct_delete)

lemma wf_step: "wf s \<Longrightarrow> step a s = Next s' \<Longrightarrow> wf s'"
  unfolding wf_def
  using inv_ids_step inv_q_step inv_wg_step inv_reg_step inv_hist_step inv_sd_step by blast

lemma NewPool_InrD:
  assumes "NewPool n = Inr s0"
  shows "s0 = \<lparr>workers = [], jobs = \<lparr>buf = [], cap = nat (sint n), closed = False, recvq = []\<rparr>,
               nextID = 0, wg = 0, ctxs = [], procs = [], out = [], sd = NotCalled,
               accepted = [], delivered = []\<rparr>"
    and "0 \<le> sint n" and "elem_size * unat n \<le> maxAlloc - hchanSize"
proof -
  from assms obtain c where c: "make_chan n = Inr c"
      and s0: "s0 = \<lparr>workers = [], jobs = c, nextID = 0, wg = 0, ctxs = [], procs = [],
        out = [], sd = NotCalled, accepted = [], delivered = []\<rparr>"
    by (auto simp: NewPool_def split: sum.splits)
  from c have ok: "\<not> 2 ^ 64 \<le> elem_size * unat n"
      "\<not> (elem_size * unat n) mod 2 ^ 64 > maxAlloc - hchanSize" "\<not> sint n < 0"
      and c': "c = \<lparr>buf = [], cap = nat (sint n), closed = False, recvq = []\<rparr>"
    by (auto simp: make_chan_def Let_def split: if_splits)
  from s0 c' show "s0 = \<lparr>workers = [], jobs = \<lparr>buf = [], cap = nat (sint n), closed = False, recvq = []\<rparr>,
               nextID = 0, wg = 0, ctxs = [], procs = [], out = [], sd = NotCalled,
               accepted = [], delivered = []\<rparr>" by simp
  from ok show "0 \<le> sint n" by simp
  from ok show "elem_size * unat n \<le> maxAlloc - hchanSize" by simp
qed

lemma wf_NewPool: "NewPool n = Inr s0 \<Longrightarrow> wf s0"
  by (drule NewPool_InrD(1))
    (simp add: wf_def inv_ids_def inv_q_def inv_wg_def live_def
      inv_reg_def inv_hist_def inv_sd_def)

subsection \<open>Reachable states\<close>

lemma reachable_run: "reachable n acts s \<Longrightarrow> \<exists>s0. NewPool n = Inr s0 \<and> run acts s0 = Next s"
  by (auto simp: reachable_def split: sum.splits)

lemma reachable_wf: "reachable n acts s \<Longrightarrow> wf s"
proof -
  assume "reachable n acts s"
  then obtain s0 where s0: "NewPool n = Inr s0" "run acts s0 = Next s"
    using reachable_run by blast
  show "wf s"
    by (rule run_invariant [where P = wf, OF s0(2) wf_NewPool [OF s0(1)]]) (rule wf_step)
qed

lemma run_wf: "NewPool n = Inr s0 \<Longrightarrow> run acts s0 = Next s \<Longrightarrow> wf s"
  by (rule reachable_wf [of n acts]) (simp add: reachable_def)

lemma reachable_inv_ids: "reachable n acts s \<Longrightarrow> inv_ids s"
  using reachable_wf by (simp add: wf_def)

lemma reachable_inv_q: "reachable n acts s \<Longrightarrow> inv_q s"
  using reachable_wf by (simp add: wf_def)

lemma reachable_inv_wg: "reachable n acts s \<Longrightarrow> inv_wg s"
  using reachable_wf by (simp add: wf_def)

lemma reachable_inv_reg: "reachable n acts s \<Longrightarrow> inv_reg s"
  using reachable_wf by (simp add: wf_def)

lemma reachable_inv_hist: "reachable n acts s \<Longrightarrow> inv_hist s"
  using reachable_wf by (simp add: wf_def)

lemma reachable_cap: "reachable n acts s \<Longrightarrow> cap (jobs s) = nat (sint n)"
proof -
  assume "reachable n acts s"
  then obtain s0 where s0: "NewPool n = Inr s0" "run acts s0 = Next s"
    using reachable_run by blast
  from NewPool_InrD(1) [OF s0(1)] have c: "cap (jobs s0) = nat (sint n)"
    by simp
  show ?thesis
    by (rule run_invariant [where P = "\<lambda>s. cap (jobs s) = nat (sint n)", OF s0(2) c])
      (simp add: cap_step)
qed

lemma reachable_step: "reachable n acts s \<Longrightarrow> step a s = Next s' \<Longrightarrow> reachable n (acts @ [a]) s'"
  by (auto simp: reachable_def run_snoc split: sum.splits)

lemma run_closed: "run acts s = Next s' \<Longrightarrow> closed (jobs s) \<Longrightarrow> closed (jobs s')"
  by (rule run_invariant [where P = "\<lambda>s. closed (jobs s)"]) (auto intro: closed_step)

lemma registry_keys_distinct: "reachable n acts s \<Longrightarrow> distinct (map fst (workers s))"
proof -
  assume "reachable n acts s"
  then obtain s0 where s0: "NewPool n = Inr s0" "run acts s0 = Next s"
    using reachable_run by blast
  from NewPool_InrD(1) [OF s0(1)] have "distinct (map fst (workers s0))"
    by simp
  then show ?thesis
    by (rule run_invariant [where P = "\<lambda>s. distinct (map fst (workers s))", OF s0(2)])
      (rule registry_keys_step)
qed

subsection \<open>The example states are reachable\<close>

lemmas eval_defs = reachable_def caller_free_def NewPool_def make_chan_def elem_size_def
  maxAlloc_def hchanSize_def AddWorker_def RemoveWorker_def cancel_def
  SendJob_def Shutdown_close_def Shutdown_cancel_def Shutdown_wait_def set_pc_def pc_of_def
  ctx_done_def w_start_def w_park_def w_select_done_def w_select_job_def w_process_def
  w_deregister_def w_done_def w_stop_def

lemmas st_defs = st_full_def st_two_returning_def st_fresh_def st_closed_def st_closed_done_def sched_two_def st_two_def
  st_two_removed_def st_two_gone_def st_zero_def st_zero_parked_def
  sched_drop_def st_drop_wait_def st_drop_def st_drop_stopped_def
  st_two_closed_def st_two_cancelled_def

lemma NewPool_2: "NewPool 2 = Inr st_fresh"
  by (simp add: NewPool_def make_chan_def elem_size_def maxAlloc_def hchanSize_def st_fresh_def)

lemma NewPool_0: "NewPool 0 = Inr st_zero"
  by (simp add: NewPool_def make_chan_def elem_size_def maxAlloc_def hchanSize_def st_defs)

lemma reachable_st_two: "reachable 2 sched_two st_two"
  by (simp add: eval_defs st_defs)

lemma reachable_st_two_removed: "reachable 2 (sched_two @ [CallRemoveWorker 0]) st_two_removed"
  by (simp add: eval_defs st_defs)

lemma reachable_st_two_gone:
  "reachable 2 (sched_two @ [CallRemoveWorker 0, WSelectDone 0, WDeregister 0]) st_two_gone"
  by (simp add: eval_defs st_defs)

lemma reachable_st_zero: "reachable 0 [] st_zero"
  by (simp add: eval_defs st_defs)

lemma reachable_st_zero_parked: "reachable 0 [CallAddWorker, WStart 0, WPark 0] st_zero_parked"
  by (simp add: eval_defs st_defs)

lemma reachable_st_drop_wait: "reachable 1 sched_drop st_drop_wait"
  by (simp add: eval_defs st_defs)

subsection \<open>Filling the buffer\<close>

lemma send_all_fill:
  assumes "\<not> closed (jobs s)" and "recvq (jobs s) = []"
    and "length (buf (jobs s)) + length js \<le> cap (jobs s)"
  shows "\<exists>s1. send_all js s = Inr (replicate (length js) None, s1) \<and>
     buf (jobs s1) = buf (jobs s) @ js \<and> cap (jobs s1) = cap (jobs s) \<and>
     \<not> closed (jobs s1) \<and> recvq (jobs s1) = [] \<and> accepted s1 = accepted s @ js \<and>
     delivered s1 = delivered s"
  using assms
proof (induction js arbitrary: s)
  case Nil
  then show ?case by simp
next
  case (Cons j js)
  let ?s' = "s\<lparr>jobs := (jobs s)\<lparr>buf := buf (jobs s) @ [j]\<rparr>, accepted := accepted s @ [j]\<rparr>"
  from Cons.prems have sj: "SendJob j s = Inr (None, ?s')" by (simp add: SendJob_def)
  from Cons.prems have "\<not> closed (jobs ?s')" "recvq (jobs ?s') = []"
    "length (buf (jobs ?s')) + length js \<le> cap (jobs ?s')" by simp_all
  from Cons.IH [OF this] obtain s1 where
    "send_all js ?s' = Inr (replicate (length js) None, s1)"
    "buf (jobs s1) = buf (jobs ?s') @ js" "cap (jobs s1) = cap (jobs ?s')"
    "\<not> closed (jobs s1)" "recvq (jobs s1) = []" "accepted s1 = accepted ?s' @ js"
    "delivered s1 = delivered ?s'" by blast
  with sj show ?case by simp
qed

subsection \<open>Worker ids\<close>

lemma sint_of_nat_small: "i < 2 ^ 63 \<Longrightarrow> sint (of_nat i :: 64 word) = int i"
  by (simp add: signed_of_nat signed_take_bit_int_eq_self)

lemma of_nat_64_inj:
  "i < 2 ^ 64 \<Longrightarrow> j < 2 ^ 64 \<Longrightarrow> (of_nat i :: 64 word) = of_nat j \<Longrightarrow> i = j"
  by (simp add: word_of_nat_eq_iff take_bit_nat_eq_self)

lemma run_add_workers:
  "caller_free s0 \<Longrightarrow>
   run (replicate k CallAddWorker) s0 = Next (add_workers k s0) \<and>
   length (procs (add_workers k s0)) = length (procs s0) + k"
proof (induction k arbitrary: s0)
  case 0
  then show ?case by simp
next
  case (Suc k)
  from Suc.prems have "caller_free (snd (AddWorker s0))"
    by (simp add: caller_free_def AddWorker_def Let_def)
  from Suc.IH [OF this] Suc.prems show ?case
    by (auto simp: AddWorker_def Let_def)
qed

lemma add_workers_Suc_right: "add_workers (Suc k) s = snd (AddWorker (add_workers k s))"
  by (induction k arbitrary: s) simp_all

lemma add_workers_frame:
  "length (procs (add_workers k s)) = length (procs s) + k"
  "length (ctxs (add_workers k s)) = length (ctxs s) + k"
  "nextID (add_workers k s) = nextID s + of_nat k"
  "sd (add_workers k s) = sd s"
  by (induction k arbitrary: s) (simp_all add: AddWorker_def Let_def)

lemma add_workers_old:
  "i < length (procs s) \<Longrightarrow> procs (add_workers k s) ! i = procs s ! i"
  "i < length (ctxs s) \<Longrightarrow> ctxs (add_workers k s) ! i = ctxs s ! i"
  by (induction k arbitrary: s) (simp_all add: AddWorker_def Let_def nth_append)

lemma unat_nonneg:
  assumes "0 \<le> sint (n :: 64 word)"
  shows "unat n = nat (sint n)"
proof -
  have "sint n < 2 ^ 63" using sint_lt [of n] by simp
  with assms have "take_bit 64 (sint n) = sint n" by (simp add: take_bit_int_eq_self)
  then have "uint n = sint n" using uint_sint [of n] by simp
  moreover have "unat n = nat (uint n)" by simp
  ultimately show ?thesis by (simp only:)
qed

lemma own_entry:
  assumes wf: "wf s" and b: "length (procs s) \<le> 2 ^ 64" and g: "g < length (procs s)"
    and kw: "kw \<in> set (workers s)" and k: "fst kw = g_id (procs s ! g)"
  shows "Cancel (snd kw) = g_ctx (procs s ! g)"
proof -
  from wf kw obtain i where i: "i < length (procs s)" "g_id (procs s ! i) = fst kw"
      "g_ctx (procs s ! i) = Cancel (snd kw)" "registered (g_pc (procs s ! i))"
    by (fastforce simp: wf_def inv_reg_def)
  from wf i g have "g_id (procs s ! i) = of_nat i" "g_id (procs s ! g) = of_nat g"
    by (simp_all add: wf_def inv_ids_def)
  with i k have "(of_nat i :: 64 word) = of_nat g" by simp
  moreover from i g b have "i < 2 ^ 64" "g < 2 ^ 64" by simp_all
  ultimately have "i = g" by (rule of_nat_64_inj [rotated 2])
  with i show ?thesis by simp
qed

subsection \<open>A worker that holds a job\<close>

lemma pc_of_SendJob:
  assumes "SendJob job s = Inr (r, s')" and "inv_q s"
  shows "pc_of s' g =
     (if recvq (jobs s) \<noteq> [] \<and> g = hd (recvq (jobs s)) then Some (Processing job) else pc_of s g)"
proof (cases "recvq (jobs s)")
  case Nil
  with assms(1) show ?thesis by (auto simp: SendJob_def pc_of_def split: if_splits)
next
  case (Cons h q)
  with assms(2) have "h < length (procs s)" by (simp add: inv_q_def)
  with Cons assms(1) show ?thesis
    by (auto simp: SendJob_def pc_of_def split: if_splits)
qed

lemma pc_of_Shutdown_cancel_keep:
  assumes "pc_of s g = Some p" and "p \<noteq> Parked"
  shows "pc_of (Shutdown_cancel s) g = Some p"
proof -
  have "pc_of (fold (\<lambda>kw. cancel (Cancel (snd kw))) (workers s) s) g = Some p"
    by (rule fold_cancel_invariant [where P = "\<lambda>t. pc_of t g = Some p"])
      (use assms in \<open>simp_all add: pc_of_cancel\<close>)
  then show ?thesis by (simp add: Shutdown_cancel_def)
qed

lemma processing_step:
  assumes st: "step a s = Next s'" and q: "inv_q s" and pc: "pc_of s g = Some (Processing j)"
  shows "(a = WProcess g \<and> pc_of s' g = Some Selecting \<and>
            out s' = out s @ [ProcessingJob (g_id (procs s ! g)) j]) \<or>
         (a \<noteq> WProcess g \<and> pc_of s' g = Some (Processing j))"
  using st
proof (cases rule: step_cases)
  case (send job r)
  from q pc have "recvq (jobs s) \<noteq> [] \<Longrightarrow> g \<noteq> hd (recvq (jobs s))"
    by (cases "recvq (jobs s)") (auto simp: inv_q_def pc_of_def split: if_splits)
  with send pc show ?thesis by (auto simp: pc_of_SendJob [OF send(2) q])
next
  case cancel
  with pc show ?thesis by (simp add: pc_of_Shutdown_cancel_keep)
qed (use pc pc_of_SomeD [OF pc] in \<open>auto simp: pc_of_cancel pc_of_AddWorker pc_of_close split: if_splits\<close>)

subsection \<open>The counter at zero\<close>

lemma live_zero: "live s = 0 \<Longrightarrow> g \<in> set (procs s) \<Longrightarrow> g_pc g = Signalled \<or> g_pc g = Stopped"
proof -
  assume "live s = 0" "g \<in> set (procs s)"
  then have "\<not> counted (g_pc g)" by (auto simp: live_def filter_empty_conv)
  then show ?thesis by (cases "g_pc g") auto
qed

lemma wg_zero_registry_empty:
  assumes "wf s" and "wg s = 0"
  shows "workers s = [] \<and> (\<forall>g \<in> set (procs s). g_pc g = Signalled \<or> g_pc g = Stopped)"
proof
  from assms have l: "live s = 0" by (simp add: wf_def inv_wg_def)
  then show all: "\<forall>g \<in> set (procs s). g_pc g = Signalled \<or> g_pc g = Stopped"
    by (blast dest: live_zero)
  show "workers s = []"
  proof (rule ccontr)
    assume "workers s \<noteq> []"
    then obtain kw where "kw \<in> set (workers s)" by (cases "workers s") auto
    with assms(1) obtain i where "i < length (procs s)" "registered (g_pc (procs s ! i))"
      by (auto simp: wf_def inv_reg_def)
    with all show False by (auto simp: all_set_conv_all_nth)
  qed
qed

subsection \<open>Counting the runs of the deferred function\<close>

lemma deleted_count_cancel [simp]: "deleted_count (cancel c s) g = deleted_count s g"
  by (simp add: deleted_count_def pc_of_cancel)

lemma done_count_cancel [simp]: "done_count (cancel c s) g = done_count s g"
  by (simp add: done_count_def pc_of_cancel)

lemma deleted_count_Shutdown_cancel [simp]: "deleted_count (Shutdown_cancel s) g = deleted_count s g"
proof -
  have "deleted_count (fold (\<lambda>kw. cancel (Cancel (snd kw))) (workers s) s) g = deleted_count s g"
    by (rule fold_cancel_invariant [where P = "\<lambda>t. deleted_count t g = deleted_count s g"]) simp_all
  then show ?thesis by (simp add: Shutdown_cancel_def deleted_count_def)
qed

lemma done_count_Shutdown_cancel [simp]: "done_count (Shutdown_cancel s) g = done_count s g"
proof -
  have "done_count (fold (\<lambda>kw. cancel (Cancel (snd kw))) (workers s) s) g = done_count s g"
    by (rule fold_cancel_invariant [where P = "\<lambda>t. done_count t g = done_count s g"]) simp_all
  then show ?thesis by (simp add: Shutdown_cancel_def done_count_def)
qed

lemma deleted_count_step:
  assumes st: "step a s = Next s'" and q: "inv_q s"
  shows "deleted_count s' g = deleted_count s g + (if a = WDeregister g then 1 else 0)"
  using st
proof (cases rule: step_cases)
  case add
  then show ?thesis by (auto simp: deleted_count_def pc_of_AddWorker)
next
  case (send job r)
  show ?thesis
  proof (cases "recvq (jobs s)")
    case Nil
    with send q show ?thesis by (simp add: deleted_count_def pc_of_SendJob)
  next
    case (Cons h qs)
    with q have "pc_of s h = Some Parked" by (simp add: inv_q_def pc_of_def)
    with send q Cons show ?thesis by (auto simp: deleted_count_def pc_of_SendJob)
  qed
next
  case close
  then show ?thesis by (auto simp: deleted_count_def pc_of_close)
next
  case cancel
  then show ?thesis by simp
qed (auto simp: deleted_count_def pc_of_cancel dest: pc_of_SomeD)

lemma done_count_step:
  assumes st: "step a s = Next s'" and q: "inv_q s"
  shows "done_count s' g = done_count s g + (if a = WDone g then 1 else 0)"
  using st
proof (cases rule: step_cases)
  case add
  then show ?thesis by (auto simp: done_count_def pc_of_AddWorker)
next
  case (send job r)
  show ?thesis
  proof (cases "recvq (jobs s)")
    case Nil
    with send q show ?thesis by (simp add: done_count_def pc_of_SendJob)
  next
    case (Cons h qs)
    with q have "pc_of s h = Some Parked" by (simp add: inv_q_def pc_of_def)
    with send q Cons show ?thesis by (auto simp: done_count_def pc_of_SendJob)
  qed
next
  case close
  then show ?thesis by (auto simp: done_count_def pc_of_close)
next
  case cancel
  then show ?thesis by simp
qed (auto simp: done_count_def pc_of_cancel dest: pc_of_SomeD)

lemma exit_counts:
  assumes "reachable n acts s"
  shows "count_list acts (WDeregister g) = deleted_count s g \<and>
         count_list acts (WDone g) = done_count s g"
proof -
  from assms obtain s0 where s0: "NewPool n = Inr s0" "run acts s0 = Next s"
    using reachable_run by blast
  show ?thesis
  proof (rule run_trace_invariant [OF s0(2), where P = "\<lambda>acts s.
      count_list acts (WDeregister g) = deleted_count s g \<and>
      count_list acts (WDone g) = done_count s g"])
    from NewPool_InrD(1) [OF s0(1)] show "count_list [] (WDeregister g) = deleted_count s0 g \<and>
        count_list [] (WDone g) = done_count s0 g"
      by (simp add: deleted_count_def done_count_def pc_of_def)
  next
    fix as a t t'
    assume r: "run as s0 = Next t"
      and ih: "count_list as (WDeregister g) = deleted_count t g \<and>
               count_list as (WDone g) = done_count t g"
      and st: "step a t = Next t'"
    from run_wf [OF s0(1) r] have q: "inv_q t" by (simp add: wf_def)
    from ih deleted_count_step [OF st q, of g] done_count_step [OF st q, of g]
    show "count_list (as @ [a]) (WDeregister g) = deleted_count t' g \<and>
          count_list (as @ [a]) (WDone g) = done_count t' g"
      by auto
  qed
qed

lemma worker_step_frame:
  assumes "step a s = Next s'" and "actor a = Some g"
  shows "(a \<noteq> WDeregister g \<longrightarrow> workers s' = workers s) \<and> (a \<noteq> WDone g \<longrightarrow> wg s' = wg s)"
  using assms by (cases rule: step_cases) auto

subsection \<open>The statements of Shutdown in a schedule\<close>




subsection \<open>Cancellation and the other workers\<close>

lemma wake_other:
  "g_ctx x \<noteq> c \<Longrightarrow> (if g_pc x = Parked \<and> g_ctx x = c then x\<lparr>g_pc := Returning\<rparr> else x) = x"
  by simp

lemma cancel_set_pc:
  assumes "B < length (procs s)" and "g_ctx (procs s ! B) \<noteq> c"
  shows "cancel c (set_pc B p s) = set_pc B p (cancel c s)"
proof -
  let ?f = "\<lambda>g. if g_pc g = Parked \<and> g_ctx g = c then g\<lparr>g_pc := Returning\<rparr> else g"
  have 1: "map ?f ((procs s)[B := (procs s ! B)\<lparr>g_pc := p\<rparr>]) =
        (map ?f (procs s))[B := (map ?f (procs s) ! B)\<lparr>g_pc := p\<rparr>]"
    using assms by (simp add: map_update)
  have 2: "filter (\<lambda>i. g_ctx ((procs s)[B := (procs s ! B)\<lparr>g_pc := p\<rparr>] ! i) \<noteq> c) (recvq (jobs s)) =
        filter (\<lambda>i. g_ctx (procs s ! i) \<noteq> c) (recvq (jobs s))"
    by (simp add: upd_pc_proj)
  show ?thesis
    unfolding cancel_def set_pc_def by (simp add: 1 2)
qed

lemma cancel_upd:
  "cancel c (s\<lparr>out := x1\<rparr>) = (cancel c s)\<lparr>out := x1\<rparr>"
  "cancel c (s\<lparr>workers := x3\<rparr>) = (cancel c s)\<lparr>workers := x3\<rparr>"
  "cancel c (s\<lparr>wg := x4\<rparr>) = (cancel c s)\<lparr>wg := x4\<rparr>"
  "cancel c (s\<lparr>delivered := x5\<rparr>) = (cancel c s)\<lparr>delivered := x5\<rparr>"
  by (simp_all add: cancel_def)

lemma cancel_upd_buf:
  "cancel c (s\<lparr>jobs := (jobs s)\<lparr>buf := js\<rparr>, delivered := d\<rparr>) =
   (cancel c s)\<lparr>jobs := (jobs (cancel c s))\<lparr>buf := js\<rparr>, delivered := d\<rparr>"
  by (simp add: cancel_def)

lemma cancel_upd_recvq:
  assumes "g_ctx (procs s ! B) \<noteq> c"
  shows "cancel c (s\<lparr>jobs := (jobs s)\<lparr>recvq := recvq (jobs s) @ [B]\<rparr>\<rparr>) =
     (cancel c s)\<lparr>jobs := (jobs (cancel c s))\<lparr>recvq := recvq (jobs (cancel c s)) @ [B]\<rparr>\<rparr>"
  using assms by (simp add: cancel_def)

lemma cancel_commute:
  assumes B: "B < length (procs s)" and ne: "g_ctx (procs s ! B) \<noteq> c" and act: "actor a = Some B"
  shows "step a (cancel c s) =
     (case step a s of Next t \<Rightarrow> Next (cancel c t) | Panic e \<Rightarrow> Panic e | Blocked \<Rightarrow> Blocked)"
proof -
  have pc: "pc_of (cancel c s) B = pc_of s B" using B ne by (simp add: pc_of_cancel)
  have cd: "ctx_done (cancel c s) (g_ctx (procs s ! B)) = ctx_done s (g_ctx (procs s ! B))"
    using ne by (auto simp: ctx_done_cancel)
  have sp: "cancel c (set_pc B p t) = set_pc B p (cancel c t)"
    if "procs t = procs s" for p t
    using cancel_set_pc [of B t c p] B ne that by simp
  show ?thesis
  proof (cases a)
    case (WStart g)
    with act have g: "g = B" by simp
    show ?thesis unfolding WStart g using B
      by (simp add: w_start_def pc sp cancel_upd)
  next
    case (WPark g)
    with act have g: "g = B" by simp
    show ?thesis unfolding WPark g using B ne
      by (simp add: w_park_def pc cd sp cancel_upd_recvq)
  next
    case (WSelectDone g)
    with act have g: "g = B" by simp
    show ?thesis unfolding WSelectDone g using B
      by (simp add: w_select_done_def pc cd sp)
  next
    case (WSelectJob g)
    with act have g: "g = B" by simp
    show ?thesis unfolding WSelectJob g using B
      by (simp add: w_select_job_def pc sp cancel_upd_buf split: list.splits)
  next
    case (WProcess g)
    with act have g: "g = B" by simp
    show ?thesis unfolding WProcess g using B
      by (simp add: w_process_def pc sp cancel_upd split: option.splits pc.splits)
  next
    case (WDeregister g)
    with act have g: "g = B" by simp
    show ?thesis unfolding WDeregister g using B
      by (simp add: w_deregister_def pc sp cancel_upd)
  next
    case (WDone g)
    with act have g: "g = B" by simp
    show ?thesis unfolding WDone g using B
      by (simp add: w_done_def pc sp cancel_upd)
  next
    case (WStop g)
    with act have g: "g = B" by simp
    show ?thesis unfolding WStop g using B
      by (simp add: w_stop_def pc sp cancel_upd)
  qed (use act in simp_all)
qed

lemma RemoveWorker_other:
  assumes wf: "wf s" and B: "B < length (procs s)" and ne: "g_id (procs s ! B) \<noteq> A"
  shows "RemoveWorker A s = s \<or>
         (\<exists>c. c \<noteq> g_ctx (procs s ! B) \<and> RemoveWorker A s = cancel c s)"
proof (cases "map_of (workers s) A")
  case None
  then show ?thesis by (simp add: RemoveWorker_def)
next
  case (Some w)
  then have "(A, w) \<in> set (workers s)" by (rule map_of_SomeD)
  with wf obtain i where i: "i < length (procs s)" "g_id (procs s ! i) = A"
      "g_ctx (procs s ! i) = Cancel w"
    by (fastforce simp: wf_def inv_reg_def)
  with ne have "i \<noteq> B" by auto
  moreover from wf i B have "g_ctx (procs s ! i) = i" "g_ctx (procs s ! B) = B"
    by (simp_all add: wf_def inv_ids_def)
  ultimately have "Cancel w \<noteq> g_ctx (procs s ! B)" using i by simp
  with Some show ?thesis by (auto simp: RemoveWorker_def)
qed

section \<open>The claims\<close>


text \<open>
  C1, as amended. The code does not drain the queue: \<^verbatim>\<open>Shutdown\<close> cancels every worker
  right after closing the queue, and a cancelled worker may take its cancellation branch
  while jobs are buffered, so an accepted job can stay in the buffer for ever; and
  \<^verbatim>\<open>wg.Done()\<close> comes before the worker's last \<^verbatim>\<open>Printf\<close>, so a worker goroutine can still
  be running when \<^verbatim>\<open>Shutdown\<close> returns (the counterexample below shows both). What holds
  in every reachable state: the accepted jobs are, in order, the jobs handed to workers
  followed by the jobs still buffered, so no job is handed out twice or out of order; a
  worker that holds a job does nothing but print it; and when \<^verbatim>\<open>p.wg.Wait()\<close> returns, the
  queue is closed, the registry is empty and every worker goroutine has left its loop,
  deleted its entry and called \<^verbatim>\<open>wg.Done()\<close>.
\<close>

theorem Shutdown_delivery_and_registry:
  assumes "reachable n acts s"
  shows "map snd (delivered s) @ buf (jobs s) = accepted s \<and>
    (\<forall>g j. (g, j) \<in> set (delivered s) \<longrightarrow> g < length (procs s)) \<and>
    (\<forall>g j a s'. pc_of s g = Some (Processing j) \<and> step a s = Next s' \<longrightarrow>
       (a = WProcess g \<and> pc_of s' g = Some Selecting \<and>
          out s' = out s @ [ProcessingJob (g_id (procs s ! g)) j]) \<or>
       (a \<noteq> WProcess g \<and> pc_of s' g = Some (Processing j))) \<and>
    (\<forall>s'. step ShutdownWait s = Next s' \<longrightarrow>
       sd s' = Returned \<and> closed (jobs s') \<and> wg s' = 0 \<and> workers s' = [] \<and>
       (\<forall>g \<in> set (procs s'). g_pc g = Signalled \<or> g_pc g = Stopped))"
proof (intro conjI allI impI)
  from reachable_wf [OF assms] have wf: "wf s" .
  then show "map snd (delivered s) @ buf (jobs s) = accepted s"
    by (simp add: wf_def inv_hist_def)
  show "g < length (procs s)" if "(g, j) \<in> set (delivered s)" for g j
    using wf that by (auto simp: wf_def inv_hist_def)
  show "(a = WProcess g \<and> pc_of s' g = Some Selecting \<and>
          out s' = out s @ [ProcessingJob (g_id (procs s ! g)) j]) \<or>
       (a \<noteq> WProcess g \<and> pc_of s' g = Some (Processing j))"
    if "pc_of s g = Some (Processing j) \<and> step a s = Next s'" for g j a s'
    using that wf by (intro processing_step) (simp_all add: wf_def)
  fix s' assume st: "step ShutdownWait s = Next s'"
  then have e: "sd s = WorkersCancelled" "wg s = 0" "s' = s\<lparr>sd := Returned\<rparr>"
    by (auto simp: Shutdown_wait_def split: if_splits)
  from wf e show "closed (jobs s')" by (simp add: wf_def inv_sd_def)
  from e show "sd s' = Returned" "wg s' = 0" by simp_all
  from wg_zero_registry_empty [OF wf e(2)] e
  show "workers s' = []" "\<forall>g \<in> set (procs s'). g_pc g = Signalled \<or> g_pc g = Stopped"
    by simp_all
qed

theorem Shutdown_delivery_and_registry_witness:
  "reachable 2 sched_two st_two \<and>
   accepted st_two = [''Task 0''] \<and> delivered st_two = [(1, ''Task 0'')] \<and>
   pc_of st_two 1 = Some (Processing ''Task 0'') \<and>
   step (WProcess 1) st_two =
     Next (set_pc 1 Selecting (st_two\<lparr>out := out st_two @ [ProcessingJob 1 ''Task 0'']\<rparr>)) \<and>
   step (CallRemoveWorker 0) st_two = Next st_two_removed \<and>
   pc_of st_two_removed 1 = Some (Processing ''Task 0'') \<and>
   reachable 1 sched_drop st_drop_wait \<and>
   step ShutdownWait st_drop_wait = Next st_drop \<and>
   workers st_drop = [] \<and> closed (jobs st_drop) \<and> g_pc (procs st_drop ! 0) = Signalled"
proof -
  from Shutdown_delivery_and_registry [OF reachable_st_two]
    Shutdown_delivery_and_registry [OF reachable_st_drop_wait]
    reachable_st_two reachable_st_drop_wait
  show ?thesis by (simp add: eval_defs st_defs)
qed

theorem Shutdown_drops_buffered_job:
  "reachable 1 (sched_drop @ [ShutdownWait]) st_drop \<and>
   sd st_drop = Returned \<and>
   accepted st_drop = [''Task 0''] \<and> buf (jobs st_drop) = [''Task 0''] \<and>
   delivered st_drop = [] \<and>
   pc_of st_drop 0 = Some Signalled \<and>
   reachable 1 (sched_drop @ [ShutdownWait, WStop 0]) st_drop_stopped \<and>
   pc_of st_drop_stopped 0 = Some Stopped \<and> length (procs st_drop_stopped) = 1 \<and>
   buf (jobs st_drop_stopped) = [''Task 0''] \<and> delivered st_drop_stopped = [] \<and>
   step (WSelectJob 0) st_drop_stopped = Blocked"
  by (simp add: eval_defs st_defs)



text \<open>
  C3, as amended. Go's \<^verbatim>\<open>int\<close> counter wraps around: the call of \<^verbatim>\<open>AddWorker\<close> number
  \<open>2\<^sup>6\<^sup>3 + 1\<close> returns \<open>- 2\<^sup>6\<^sup>3\<close>, below the id before it (the counterexample
  below). While fewer than \<open>2\<^sup>6\<^sup>3\<close> workers have been started, the ids returned so far
  are strictly increasing and pairwise distinct, the id the next call returns is above
  all of them and new, whatever was removed in between, and no step makes \<^verbatim>\<open>nextID\<close>
  smaller or changes the ids already issued.
\<close>

theorem AddWorker_ids_increasing:
  assumes "reachable n acts s" and "length (procs s) < 2 ^ 63"
  shows "(\<forall>i j. i < j \<and> j < length (procs s) \<longrightarrow>
            sint (g_id (procs s ! i)) < sint (g_id (procs s ! j))) \<and>
    distinct (map g_id (procs s)) \<and>
    fst (AddWorker s) = nextID s \<and>
    map g_id (procs (snd (AddWorker s))) = map g_id (procs s) @ [fst (AddWorker s)] \<and>
    (\<forall>i < length (procs s). sint (g_id (procs s ! i)) < sint (fst (AddWorker s))) \<and>
    fst (AddWorker s) \<notin> set (map g_id (procs s)) \<and>
    sint (nextID s) = int (length (procs s)) \<and>
    (\<forall>a s'. step a s = Next s' \<and> length (procs s') < 2 ^ 63 \<longrightarrow>
       sint (nextID s) \<le> sint (nextID s') \<and>
       take (length (procs s)) (map g_id (procs s')) = map g_id (procs s))"
proof -
  from reachable_inv_ids [OF assms(1)] have nx: "nextID s = of_nat (length (procs s))"
    and ids: "\<And>i. i < length (procs s) \<Longrightarrow> g_id (procs s ! i) = of_nat i"
    by (simp_all add: inv_ids_def)
  have sid: "sint (g_id (procs s ! i)) = int i" if "i < length (procs s)" for i
    using that assms(2) ids by (simp add: sint_of_nat_small)
  have snx: "sint (nextID s) = int (length (procs s))"
    using assms(2) nx by (simp add: sint_of_nat_small)
  have inc: "\<forall>i j. i < j \<and> j < length (procs s) \<longrightarrow>
            sint (g_id (procs s ! i)) < sint (g_id (procs s ! j))"
    by (simp add: sid)
  have dist: "distinct (map g_id (procs s))"
    unfolding distinct_conv_nth
  proof (intro allI impI)
    fix i j assume "i < length (map g_id (procs s))" "j < length (map g_id (procs s))" "i \<noteq> j"
    then have "sint (g_id (procs s ! i)) \<noteq> sint (g_id (procs s ! j))" by (simp add: sid)
    with \<open>i < _\<close> \<open>j < _\<close> show "map g_id (procs s) ! i \<noteq> map g_id (procs s) ! j" by auto
  qed
  have r: "fst (AddWorker s) = nextID s" by (simp add: AddWorker_def Let_def)
  have app: "map g_id (procs (snd (AddWorker s))) = map g_id (procs s) @ [fst (AddWorker s)]"
    by (simp add: AddWorker_def Let_def)
  have less: "\<forall>i < length (procs s). sint (g_id (procs s ! i)) < sint (fst (AddWorker s))"
    by (simp add: r snx sid)
  have new: "fst (AddWorker s) \<notin> set (map g_id (procs s))"
  proof
    assume "fst (AddWorker s) \<in> set (map g_id (procs s))"
    then obtain i where "i < length (procs s)" "g_id (procs s ! i) = fst (AddWorker s)"
      by (auto simp: in_set_conv_nth)
    with less show False by auto
  qed
  have later: "sint (nextID s) \<le> sint (nextID s') \<and>
       take (length (procs s)) (map g_id (procs s')) = map g_id (procs s)"
    if st: "step a s = Next s'" and b: "length (procs s') < 2 ^ 63" for a s'
  proof -
    from reachable_inv_ids [OF reachable_step [OF assms(1) st]]
    have nx': "nextID s' = of_nat (length (procs s'))"
      and ids': "\<And>i. i < length (procs s') \<Longrightarrow> g_id (procs s' ! i) = of_nat i"
      by (simp_all add: inv_ids_def)
    from procs_length_step [OF st] have le: "length (procs s) \<le> length (procs s')" .
    from nx' b have "sint (nextID s') = int (length (procs s'))" by (simp add: sint_of_nat_small)
    with snx le have "sint (nextID s) \<le> sint (nextID s')" by simp
    moreover have "take (length (procs s)) (map g_id (procs s')) = map g_id (procs s)"
      using le ids ids' by (auto simp: list_eq_iff_nth_eq)
    ultimately show ?thesis ..
  qed
  from inc dist r app less new snx later show ?thesis by blast
qed

theorem AddWorker_ids_increasing_witness:
  "reachable 2 sched_two st_two \<and> length (procs st_two) < 2 ^ 63 \<and>
   map g_id (procs st_two) = [0, 1] \<and> fst (AddWorker st_two) = 2 \<and>
   sint (g_id (procs st_two ! 0)) < sint (g_id (procs st_two ! 1)) \<and>
   sint (g_id (procs st_two ! 1)) < sint (fst (AddWorker st_two)) \<and>
   step (CallRemoveWorker 0) st_two = Next st_two_removed \<and>
   sint (nextID st_two) \<le> sint (nextID st_two_removed) \<and>
   map g_id (procs st_two_removed) = [0, 1]"
proof -
  have b: "length (procs st_two) < 2 ^ 63" by (simp add: st_defs)
  from AddWorker_ids_increasing [OF reachable_st_two b] reachable_st_two b
  show ?thesis by (simp add: eval_defs st_defs)
qed

theorem AddWorker_ids_wrap_around:
  "reachable 0 (replicate (2 ^ 63 + 1) CallAddWorker) (add_workers (2 ^ 63 + 1) st_zero) \<and>
   g_id (procs (add_workers (2 ^ 63 + 1) st_zero) ! (2 ^ 63 - 1)) = 2 ^ 63 - 1 \<and>
   g_id (procs (add_workers (2 ^ 63 + 1) st_zero) ! (2 ^ 63)) = - (2 ^ 63) \<and>
   sint (g_id (procs (add_workers (2 ^ 63 + 1) st_zero) ! (2 ^ 63))) <
   sint (g_id (procs (add_workers (2 ^ 63 + 1) st_zero) ! (2 ^ 63 - 1)))"
proof -
  let ?s = "add_workers (2 ^ 63 + 1) st_zero"
  have n0: "NewPool 0 = Inr st_zero" by (rule NewPool_0)
  have "caller_free st_zero" by (simp add: caller_free_def st_defs)
  from run_add_workers [OF this, of "2 ^ 63 + 1"] have
    s: "run (replicate (2 ^ 63 + 1) CallAddWorker) st_zero = Next ?s"
    and l: "length (procs ?s) = length (procs st_zero) + (2 ^ 63 + 1)" by blast+
  from s n0 have r: "reachable 0 (replicate (2 ^ 63 + 1) CallAddWorker) ?s"
    by (simp add: reachable_def)
  from l have l': "length (procs ?s) = 2 ^ 63 + 1" by (simp add: st_defs)
  from reachable_inv_ids [OF r] l'
  have a: "g_id (procs ?s ! (2 ^ 63 - 1)) = of_nat (2 ^ 63 - 1)"
    and b: "g_id (procs ?s ! (2 ^ 63)) = of_nat (2 ^ 63)"
    by (simp_all add: inv_ids_def)
  have "sint (of_nat (2 ^ 63) :: 64 word) = - (2 ^ 63)" by simp
  moreover have "sint (of_nat (2 ^ 63 - 1) :: 64 word) = 2 ^ 63 - 1" by simp
  moreover have "(of_nat (2 ^ 63) :: 64 word) = - (2 ^ 63)" by simp
  moreover have "(of_nat (2 ^ 63 - 1) :: 64 word) = 2 ^ 63 - 1" by simp
  ultimately show ?thesis using r a b by simp
qed

text \<open>
  C4, as amended. A queue at capacity does not always refuse a job: with \<open>N = 0\<close> the
  buffer is at capacity in every state, and a \<^verbatim>\<open>SendJob\<close> that finds a worker parked in its
  receive hands the job to it and returns \<^verbatim>\<open>nil\<close>. What holds is this. On a pool made
  by \<^verbatim>\<open>NewPool(N)\<close>, with no worker started, \<open>N\<close> calls of \<^verbatim>\<open>SendJob\<close> all return \<^verbatim>\<open>nil\<close>
  and leave the \<open>N\<close> jobs in the buffer in order, and the next call returns the queue-full
  error and changes nothing. \<^verbatim>\<open>SendJob\<close> never blocks: in every state of the pool with
  the queue open it returns at once. It returns the error exactly when the buffer is at
  capacity and no worker is parked in its receive; with a buffer (\<open>N > 0\<close>), that is
  exactly when the buffer is at capacity. The error leaves the state as it was. On
  success the job is enqueued: either it is the new last element of the buffer, which
  stays within its capacity, or, when workers wait, it is handed to the one that has
  waited longest, which holds it, has left the receive queue and prints it as its next
  step; nothing else changes.
\<close>

theorem SendJob_queue_bound:
  assumes "NewPool n = Inr s0" and "length js = nat (sint n)"
  shows "(\<exists>s1. send_all js s0 = Inr (replicate (length js) None, s1) \<and>
            buf (jobs s1) = js \<and> accepted s1 = js \<and> delivered s1 = [] \<and>
            SendJob job s1 = Inr (Some QueueFull, s1)) \<and>
    (\<forall>acts t. reachable n acts t \<and> \<not> closed (jobs t) \<longrightarrow>
       (\<exists>r t'. SendJob job t = Inr (r, t') \<and>
          (0 < sint n \<longrightarrow>
             (r = Some QueueFull \<longleftrightarrow> length (buf (jobs t)) = nat (sint n))) \<and>
          (r = Some QueueFull \<longleftrightarrow>
             recvq (jobs t) = [] \<and> length (buf (jobs t)) = cap (jobs t)) \<and>
          (r = Some QueueFull \<longrightarrow> t' = t) \<and>
          (r = None \<longrightarrow>
             accepted t' = accepted t @ [job] \<and>
             workers t' = workers t \<and> nextID t' = nextID t \<and> wg t' = wg t \<and>
             ctxs t' = ctxs t \<and> out t' = out t \<and> sd t' = sd t \<and>
             cap (jobs t') = cap (jobs t) \<and> \<not> closed (jobs t') \<and>
             (recvq (jobs t) = [] \<and> recvq (jobs t') = [] \<and>
                buf (jobs t') = buf (jobs t) @ [job] \<and>
                length (buf (jobs t')) \<le> cap (jobs t') \<and>
                procs t' = procs t \<and> delivered t' = delivered t
              \<or>
              (\<exists>g q. recvq (jobs t) = g # q \<and> recvq (jobs t') = q \<and>
                 buf (jobs t) = [] \<and> buf (jobs t') = [] \<and>
                 pc_of t g = Some Parked \<and> pc_of t' g = Some (Processing job) \<and>
                 procs t' = (procs t)[g := (procs t ! g)\<lparr>g_pc := Processing job\<rparr>] \<and>
                 delivered t' = delivered t @ [(g, job)] \<and>
                 (\<exists>u. step (WProcess g) t' = Next u \<and> pc_of u g = Some Selecting \<and>
                    out u = out t @ [ProcessingJob (g_id (procs t ! g)) job])))))) \<and>
    (\<forall>t. caller_free t \<longrightarrow> step (CallSendJob job) t \<noteq> Blocked)"
proof (intro conjI allI impI)
  from NewPool_InrD(1) [OF assms(1)]
  have s0: "\<not> closed (jobs s0)" "recvq (jobs s0) = []" "buf (jobs s0) = []"
    "cap (jobs s0) = nat (sint n)" "accepted s0 = []" "delivered s0 = []"
    by simp_all
  with assms(2) have "length (buf (jobs s0)) + length js \<le> cap (jobs s0)" by simp
  from send_all_fill [OF s0(1,2) this] obtain s1 where s1:
    "send_all js s0 = Inr (replicate (length js) None, s1)"
    "buf (jobs s1) = buf (jobs s0) @ js" "cap (jobs s1) = cap (jobs s0)"
    "\<not> closed (jobs s1)" "recvq (jobs s1) = []" "accepted s1 = accepted s0 @ js"
    "delivered s1 = delivered s0" by blast
  with s0 assms(2) have "SendJob job s1 = Inr (Some QueueFull, s1)"
    by (simp add: SendJob_def)
  with s1 s0 show "\<exists>s1. send_all js s0 = Inr (replicate (length js) None, s1) \<and>
            buf (jobs s1) = js \<and> accepted s1 = js \<and> delivered s1 = [] \<and>
            SendJob job s1 = Inr (Some QueueFull, s1)" by auto
next
  fix acts and t :: system
  assume a: "reachable n acts t \<and> \<not> closed (jobs t)"
  then have q: "inv_q t" and c: "cap (jobs t) = nat (sint n)" and op: "\<not> closed (jobs t)"
    by (auto intro: reachable_inv_q reachable_cap)
  from q have le: "length (buf (jobs t)) \<le> cap (jobs t)" by (simp add: inv_q_def)
  let ?P = "\<lambda>r t'. SendJob job t = Inr (r, t') \<and>
          (0 < sint n \<longrightarrow>
             (r = Some QueueFull \<longleftrightarrow> length (buf (jobs t)) = nat (sint n))) \<and>
          (r = Some QueueFull \<longleftrightarrow>
             recvq (jobs t) = [] \<and> length (buf (jobs t)) = cap (jobs t)) \<and>
          (r = Some QueueFull \<longrightarrow> t' = t) \<and>
          (r = None \<longrightarrow>
             accepted t' = accepted t @ [job] \<and>
             workers t' = workers t \<and> nextID t' = nextID t \<and> wg t' = wg t \<and>
             ctxs t' = ctxs t \<and> out t' = out t \<and> sd t' = sd t \<and>
             cap (jobs t') = cap (jobs t) \<and> \<not> closed (jobs t') \<and>
             (recvq (jobs t) = [] \<and> recvq (jobs t') = [] \<and>
                buf (jobs t') = buf (jobs t) @ [job] \<and>
                length (buf (jobs t')) \<le> cap (jobs t') \<and>
                procs t' = procs t \<and> delivered t' = delivered t
              \<or>
              (\<exists>g q. recvq (jobs t) = g # q \<and> recvq (jobs t') = q \<and>
                 buf (jobs t) = [] \<and> buf (jobs t') = [] \<and>
                 pc_of t g = Some Parked \<and> pc_of t' g = Some (Processing job) \<and>
                 procs t' = (procs t)[g := (procs t ! g)\<lparr>g_pc := Processing job\<rparr>] \<and>
                 delivered t' = delivered t @ [(g, job)] \<and>
                 (\<exists>u. step (WProcess g) t' = Next u \<and> pc_of u g = Some Selecting \<and>
                    out u = out t @ [ProcessingJob (g_id (procs t ! g)) job]))))"
  have "\<exists>r t'. ?P r t'"
  proof (cases "recvq (jobs t)")
    case Nil
    show ?thesis
    proof (cases "length (buf (jobs t)) < cap (jobs t)")
      case True
      let ?t' = "t\<lparr>jobs := (jobs t)\<lparr>buf := buf (jobs t) @ [job]\<rparr>, accepted := accepted t @ [job]\<rparr>"
      from Nil op True have "SendJob job t = Inr (None, ?t')" by (simp add: SendJob_def)
      with Nil op True c have "?P None ?t'" by simp
      then show ?thesis by blast
    next
      case False
      with le have full: "length (buf (jobs t)) = cap (jobs t)" by simp
      from Nil op False have "SendJob job t = Inr (Some QueueFull, t)" by (simp add: SendJob_def)
      with Nil full c have "?P (Some QueueFull) t" by simp
      then show ?thesis by blast
    qed
  next
    case (Cons g q')
    with q have g: "g < length (procs t)" "g_pc (procs t ! g) = Parked" "buf (jobs t) = []"
      by (simp_all add: inv_q_def)
    let ?t' = "t\<lparr>jobs := (jobs t)\<lparr>recvq := q'\<rparr>,
                 procs := (procs t)[g := (procs t ! g)\<lparr>g_pc := Processing job\<rparr>],
                 accepted := accepted t @ [job],
                 delivered := delivered t @ [(g, job)]\<rparr>"
    from Cons op have sj: "SendJob job t = Inr (None, ?t')" by (simp add: SendJob_def)
    from g have pr: "step (WProcess g) ?t' =
        Next (set_pc g Selecting (?t'\<lparr>out := out t @ [ProcessingJob (g_id (procs t ! g)) job]\<rparr>))"
      by (simp add: w_process_def pc_of_def)
    from g have "pc_of (set_pc g Selecting
          (?t'\<lparr>out := out t @ [ProcessingJob (g_id (procs t ! g)) job]\<rparr>)) g = Some Selecting"
      by (simp add: pc_of_def set_pc_def)
    with pr have u: "\<exists>u. step (WProcess g) ?t' = Next u \<and> pc_of u g = Some Selecting \<and>
        out u = out t @ [ProcessingJob (g_id (procs t ! g)) job]" by simp
    from sj Cons op g c u have "?P None ?t'" by (simp add: pc_of_def)
    then show ?thesis by blast
  qed
  then show "\<exists>r t'. SendJob job t = Inr (r, t') \<and>
          (0 < sint n \<longrightarrow>
             (r = Some QueueFull \<longleftrightarrow> length (buf (jobs t)) = nat (sint n))) \<and>
          (r = Some QueueFull \<longleftrightarrow>
             recvq (jobs t) = [] \<and> length (buf (jobs t)) = cap (jobs t)) \<and>
          (r = Some QueueFull \<longrightarrow> t' = t) \<and>
          (r = None \<longrightarrow>
             accepted t' = accepted t @ [job] \<and>
             workers t' = workers t \<and> nextID t' = nextID t \<and> wg t' = wg t \<and>
             ctxs t' = ctxs t \<and> out t' = out t \<and> sd t' = sd t \<and>
             cap (jobs t') = cap (jobs t) \<and> \<not> closed (jobs t') \<and>
             (recvq (jobs t) = [] \<and> recvq (jobs t') = [] \<and>
                buf (jobs t') = buf (jobs t) @ [job] \<and>
                length (buf (jobs t')) \<le> cap (jobs t') \<and>
                procs t' = procs t \<and> delivered t' = delivered t
              \<or>
              (\<exists>g q. recvq (jobs t) = g # q \<and> recvq (jobs t') = q \<and>
                 buf (jobs t) = [] \<and> buf (jobs t') = [] \<and>
                 pc_of t g = Some Parked \<and> pc_of t' g = Some (Processing job) \<and>
                 procs t' = (procs t)[g := (procs t ! g)\<lparr>g_pc := Processing job\<rparr>] \<and>
                 delivered t' = delivered t @ [(g, job)] \<and>
                 (\<exists>u. step (WProcess g) t' = Next u \<and> pc_of u g = Some Selecting \<and>
                    out u = out t @ [ProcessingJob (g_id (procs t ! g)) job]))))" .
next
  fix t :: system assume "caller_free t"
  then show "step (CallSendJob job) t \<noteq> Blocked"
    by (simp split: sum.splits)
qed

theorem SendJob_queue_bound_witness:
  "NewPool 2 = Inr st_fresh \<and> length [''Task 0'', ''Task 1''] = nat (sint (2 :: goint)) \<and>
   send_all [''Task 0'', ''Task 1''] st_fresh = Inr ([None, None], st_full) \<and>
   buf (jobs st_full) = [''Task 0'', ''Task 1''] \<and>
   reachable 2 [CallSendJob ''Task 0'', CallSendJob ''Task 1''] st_full \<and>
   \<not> closed (jobs st_full) \<and> 0 < sint (2 :: goint) \<and>
   length (buf (jobs st_full)) = nat (sint (2 :: goint)) \<and>
   SendJob ''Task 2'' st_full = Inr (Some QueueFull, st_full) \<and>
   NewPool 0 = Inr st_zero \<and> length ([] :: string list) = nat (sint (0 :: goint)) \<and>
   reachable 0 [CallAddWorker, WStart 0, WPark 0] st_zero_parked \<and>
   \<not> closed (jobs st_zero_parked) \<and> recvq (jobs st_zero_parked) = [0] \<and>
   fst (projr (SendJob ''Task 2'' st_zero_parked)) = None \<and>
   pc_of (snd (projr (SendJob ''Task 2'' st_zero_parked))) 0 = Some (Processing ''Task 2'') \<and>
   delivered (snd (projr (SendJob ''Task 2'' st_zero_parked))) = [(0, ''Task 2'')] \<and>
   recvq (jobs (snd (projr (SendJob ''Task 2'' st_zero_parked)))) = [] \<and>
   caller_free st_full \<and> step (CallSendJob ''Task 2'') st_full \<noteq> Blocked"
proof -
  have l: "length [''Task 0'', ''Task 1''] = nat (sint (2 :: goint))" by simp
  note t = SendJob_queue_bound [OF NewPool_2 l, of "''Task 2''"]
  have full: "reachable 2 [CallSendJob ''Task 0'', CallSendJob ''Task 1''] st_full"
    "\<not> closed (jobs st_full)" "length (buf (jobs st_full)) = nat (sint (2 :: goint))"
    "caller_free st_full" "buf (jobs st_full) = [''Task 0'', ''Task 1'']"
    by (simp_all add: eval_defs st_defs)
  have fill: "send_all [''Task 0'', ''Task 1''] st_fresh = Inr ([None, None], st_full)"
    by (simp add: SendJob_def st_defs)
  from t [THEN conjunct2, THEN conjunct1, rule_format, OF conjI, OF full(1,2)]
  obtain r t' where r: "SendJob ''Task 2'' st_full = Inr (r, t')"
    "0 < sint (2 :: goint) \<longrightarrow>
       (r = Some QueueFull \<longleftrightarrow> length (buf (jobs st_full)) = nat (sint (2 :: goint)))"
    "r = Some QueueFull \<longrightarrow> t' = st_full" by blast
  from r(2) full(3) have "r = Some QueueFull" by simp
  with r(1,3) have e: "SendJob ''Task 2'' st_full = Inr (Some QueueFull, st_full)" by simp
  from t [THEN conjunct2, THEN conjunct2, rule_format, OF full(4)]
  have nb: "step (CallSendJob ''Task 2'') st_full \<noteq> Blocked" .
  have l0: "length ([] :: string list) = nat (sint (0 :: goint))" by simp
  note z = SendJob_queue_bound [OF NewPool_0 l0, of "''Task 2''"]
  have parked: "\<not> closed (jobs st_zero_parked)" "recvq (jobs st_zero_parked) = [0]"
    "delivered st_zero_parked = []"
    by (simp_all add: st_defs)
  from z [THEN conjunct2, THEN conjunct1, rule_format, OF conjI, OF reachable_st_zero_parked parked(1)]
  obtain r0 t0 where r0: "SendJob ''Task 2'' st_zero_parked = Inr (r0, t0)"
    "r0 = Some QueueFull \<longleftrightarrow>
       recvq (jobs st_zero_parked) = [] \<and>
       length (buf (jobs st_zero_parked)) = cap (jobs st_zero_parked)"
    "r0 = None \<longrightarrow>
       (recvq (jobs st_zero_parked) = [] \<and> recvq (jobs t0) = [] \<and>
          buf (jobs t0) = buf (jobs st_zero_parked) @ [''Task 2''] \<and>
          length (buf (jobs t0)) \<le> cap (jobs t0) \<and>
          procs t0 = procs st_zero_parked \<and> delivered t0 = delivered st_zero_parked
        \<or>
        (\<exists>g q. recvq (jobs st_zero_parked) = g # q \<and> recvq (jobs t0) = q \<and>
           buf (jobs st_zero_parked) = [] \<and> buf (jobs t0) = [] \<and>
           pc_of st_zero_parked g = Some Parked \<and> pc_of t0 g = Some (Processing ''Task 2'') \<and>
           procs t0 = (procs st_zero_parked)[g := (procs st_zero_parked ! g)\<lparr>g_pc := Processing ''Task 2''\<rparr>] \<and>
           delivered t0 = delivered st_zero_parked @ [(g, ''Task 2'')] \<and>
           (\<exists>u. step (WProcess g) t0 = Next u \<and> pc_of u g = Some Selecting \<and>
              out u = out st_zero_parked @ [ProcessingJob (g_id (procs st_zero_parked ! g)) ''Task 2''])))"
    by blast
  from r0(2) parked(2) have "r0 \<noteq> Some QueueFull" by simp
  then have n: "r0 = None" by (cases r0) (auto intro: error.exhaust)
  with r0(3) parked(2,3) have h: "recvq (jobs t0) = []" "pc_of t0 0 = Some (Processing ''Task 2'')"
    "delivered t0 = [(0, ''Task 2'')]" by auto
  from r0(1) n h have
    "fst (projr (SendJob ''Task 2'' st_zero_parked)) = None"
    "pc_of (snd (projr (SendJob ''Task 2'' st_zero_parked))) 0 = Some (Processing ''Task 2'')"
    "delivered (snd (projr (SendJob ''Task 2'' st_zero_parked))) = [(0, ''Task 2'')]"
    "recvq (jobs (snd (projr (SendJob ''Task 2'' st_zero_parked)))) = []" by simp_all
  with NewPool_2 NewPool_0 l l0 fill full e nb reachable_st_zero_parked parked
  show ?thesis by simp
qed

theorem SendJob_at_capacity_hands_off:
  "reachable 0 [CallAddWorker, WStart 0, WPark 0] st_zero_parked \<and>
   \<not> closed (jobs st_zero_parked) \<and>
   length (buf (jobs st_zero_parked)) = cap (jobs st_zero_parked) \<and>
   SendJob ''Task 0'' st_zero_parked =
     Inr (None,
          st_zero_parked\<lparr>jobs := \<lparr>buf = [], cap = 0, closed = False, recvq = []\<rparr>,
            procs := [\<lparr>g_id = 0, g_ctx = 0, g_pc = Processing ''Task 0''\<rparr>],
            accepted := [''Task 0''], delivered := [(0, ''Task 0'')]\<rparr>)"
  by (simp add: eval_defs st_defs)

text \<open>
  C5, as amended. The registry is keyed by the worker id, a 64-bit \<^verbatim>\<open>int\<close>, and the
  \<open>2\<^sup>6\<^sup>4\<close>-th worker after a given one gets the same id: the \<^verbatim>\<open>delete\<close> of the earlier
  worker then removes the handle of the later one. While no more than \<open>2\<^sup>6\<^sup>4\<close> workers
  have been started, the claim holds: the entry a worker deletes is its own handle, and
  the entry of every other worker stays. Without any bound, a worker's deferred function
  deletes the entry under the worker's id and no entry under another id, and
  \<^verbatim>\<open>wg.Done()\<close> decrements the counter by one and never panics. Each of the two runs
  exactly once per worker, on each way out of the loop: in every run of the program, the
  number of times worker \<open>g\<close> has run its \<^verbatim>\<open>delete\<close> (its \<^verbatim>\<open>wg.Done()\<close>) is 1 if it
  stands behind it and 0 otherwise, both ways out of the \<^verbatim>\<open>select\<close> lead to the start of
  the deferred function, no other step of the worker touches the registry or the
  counter, and a worker that stands before its \<^verbatim>\<open>delete\<close> or its \<^verbatim>\<open>wg.Done()\<close> can always
  take that step.
\<close>

theorem worker_exit_cleanup:
  assumes "reachable n acts s"
  shows "count_list acts (WDeregister g) = deleted_count s g \<and>
    count_list acts (WDone g) = done_count s g \<and>
    (pc_of s g = Some Stopped \<longrightarrow>
       count_list acts (WDeregister g) = 1 \<and> count_list acts (WDone g) = 1) \<and>
    (\<forall>s'. step (WSelectDone g) s = Next s' \<or>
          step (WSelectJob g) s = Next s' \<and> buf (jobs s) = [] \<longrightarrow>
       pc_of s' g = Some Returning) \<and>
    (\<forall>s'. step (WDeregister g) s = Next s' \<longrightarrow>
       pc_of s g = Some Returning \<and> pc_of s' g = Some Deregistered \<and>
       workers s' = AList.delete (g_id (procs s ! g)) (workers s) \<and>
       map_of (workers s') = (map_of (workers s))(g_id (procs s ! g) := None) \<and>
       wg s' = wg s \<and>
       (length (procs s) \<le> 2 ^ 64 \<longrightarrow>
          (\<forall>kw \<in> set (workers s). fst kw = g_id (procs s ! g) \<longrightarrow>
             Cancel (snd kw) = g_ctx (procs s ! g)) \<and>
          (\<forall>h < length (procs s). h \<noteq> g \<longrightarrow>
             g_id (procs s ! h) \<noteq> g_id (procs s ! g) \<and>
             map_of (workers s') (g_id (procs s ! h)) =
               map_of (workers s) (g_id (procs s ! h))))) \<and>
    step (WDone g) s \<noteq> Panic NegativeWaitGroupCounter \<and>
    (\<forall>s'. step (WDone g) s = Next s' \<longrightarrow>
       pc_of s g = Some Deregistered \<and> pc_of s' g = Some Signalled \<and>
       wg s' = wg s - 1 \<and> workers s' = workers s) \<and>
    (\<forall>a s'. step a s = Next s' \<and> actor a = Some g \<longrightarrow>
       (a \<noteq> WDeregister g \<longrightarrow> workers s' = workers s) \<and>
       (a \<noteq> WDone g \<longrightarrow> wg s' = wg s)) \<and>
    (pc_of s g = Some Returning \<longrightarrow> (\<exists>s'. step (WDeregister g) s = Next s')) \<and>
    (pc_of s g = Some Deregistered \<longrightarrow> (\<exists>s'. step (WDone g) s = Next s'))"
proof (intro conjI allI impI ballI)
  from exit_counts [OF assms, of g]
  show c: "count_list acts (WDeregister g) = deleted_count s g"
    "count_list acts (WDone g) = done_count s g" by simp_all
  show "count_list acts (WDeregister g) = 1" "count_list acts (WDone g) = 1"
    if "pc_of s g = Some Stopped"
    using that c by (simp_all add: deleted_count_def done_count_def)
next
  fix s' assume "step (WSelectDone g) s = Next s' \<or>
          step (WSelectJob g) s = Next s' \<and> buf (jobs s) = []"
  then show "pc_of s' g = Some Returning"
    by (auto simp: w_select_done_def w_select_job_def pc_of_def split: if_splits)
next
  fix s' assume "step (WDeregister g) s = Next s'"
  then have e: "pc_of s g = Some Returning"
    "s' = set_pc g Deregistered (s\<lparr>workers := AList.delete (g_id (procs s ! g)) (workers s)\<rparr>)"
    by (auto simp: w_deregister_def split: if_splits)
  from e show "pc_of s g = Some Returning" by simp
  from e show "pc_of s' g = Some Deregistered" by (auto dest: pc_of_SomeD)
  from e show w': "workers s' = AList.delete (g_id (procs s ! g)) (workers s)" by simp
  then show "map_of (workers s') = (map_of (workers s))(g_id (procs s ! g) := None)"
    by (simp add: AList.delete_conv')
  from e show "wg s' = wg s" by simp
  show "Cancel (snd kw) = g_ctx (procs s ! g)"
    if "length (procs s) \<le> 2 ^ 64" "kw \<in> set (workers s)" "fst kw = g_id (procs s ! g)" for kw
    using own_entry [OF reachable_wf [OF assms] that(1) pc_of_SomeD [OF e(1)] that(2,3)] .
  have ne: "g_id (procs s ! h) \<noteq> g_id (procs s ! g)"
    if "length (procs s) \<le> 2 ^ 64" "h < length (procs s)" "h \<noteq> g" for h
  proof
    assume eq: "g_id (procs s ! h) = g_id (procs s ! g)"
    from pc_of_SomeD [OF e(1)] have g: "g < length (procs s)" .
    from reachable_inv_ids [OF assms] that(2) g
    have "g_id (procs s ! h) = of_nat h" "g_id (procs s ! g) = of_nat g"
      by (simp_all add: inv_ids_def)
    with eq have "(of_nat h :: 64 word) = of_nat g" by simp
    moreover from that(1,2) g have "h < 2 ^ 64" "g < 2 ^ 64" by simp_all
    ultimately have "h = g" by (rule of_nat_64_inj [rotated 2])
    with that(3) show False by simp
  qed
  then show "g_id (procs s ! h) \<noteq> g_id (procs s ! g)"
    if "length (procs s) \<le> 2 ^ 64" "h < length (procs s)" "h \<noteq> g" for h
    using that by blast
  show "map_of (workers s') (g_id (procs s ! h)) = map_of (workers s) (g_id (procs s ! h))"
    if "length (procs s) \<le> 2 ^ 64" "h < length (procs s)" "h \<noteq> g" for h
    using ne [OF that] w' by (simp add: AList.delete_conv)
next
  from reachable_wf [OF assms] have w: "inv_wg s" by (simp add: wf_def)
  show "step (WDone g) s \<noteq> Panic NegativeWaitGroupCounter"
  proof
    assume "step (WDone g) s = Panic NegativeWaitGroupCounter"
    then have pc: "pc_of s g = Some Deregistered" and z: "wg s \<le> 0"
      by (auto simp: w_done_def split: if_splits)
    from pc have "g < length (procs s)" "counted (g_pc (procs s ! g))"
      by (auto simp: pc_of_def split: if_splits)
    then have "procs s ! g \<in> set (filter (\<lambda>g. counted (g_pc g)) (procs s))" by simp
    then have "0 < live s" unfolding live_def by (rule length_pos_if_in_set)
    with w z show False by (simp add: inv_wg_def)
  qed
next
  fix s' assume "step (WDone g) s = Next s'"
  then have e: "pc_of s g = Some Deregistered" "s' = set_pc g Signalled (s\<lparr>wg := wg s - 1\<rparr>)"
    by (auto simp: w_done_def split: if_splits)
  from e show "pc_of s g = Some Deregistered" by simp
  from e show "pc_of s' g = Some Signalled" by (auto dest: pc_of_SomeD)
  from e show "wg s' = wg s - 1" "workers s' = workers s" by simp_all
next
  fix a s' assume a: "step a s = Next s' \<and> actor a = Some g"
  then show "workers s' = workers s" if "a \<noteq> WDeregister g"
    using that worker_step_frame [of a s s' g] by simp
  from a show "wg s' = wg s" if "a \<noteq> WDone g"
    using that worker_step_frame [of a s s' g] by simp
next
  assume "pc_of s g = Some Returning"
  then show "\<exists>s'. step (WDeregister g) s = Next s'" by (simp add: w_deregister_def)
next
  assume pc: "pc_of s g = Some Deregistered"
  from reachable_wf [OF assms] have w: "inv_wg s" by (simp add: wf_def)
  from pc have "g < length (procs s)" "counted (g_pc (procs s ! g))"
    by (auto simp: pc_of_def split: if_splits)
  then have "procs s ! g \<in> set (filter (\<lambda>g. counted (g_pc g)) (procs s))" by simp
  then have "0 < live s" unfolding live_def by (rule length_pos_if_in_set)
  with w have "0 < wg s" by (simp add: inv_wg_def)
  with pc show "\<exists>s'. step (WDone g) s = Next s'" by (simp add: w_done_def)
qed

theorem worker_exit_cleanup_witness:
  "reachable 2 (sched_two @ [CallRemoveWorker 0, WSelectDone 0]) st_two_returning \<and>
   step (WDeregister 0) st_two_returning = Next st_two_gone \<and>
   length (procs st_two_returning) \<le> 2 ^ 64 \<and>
   map_of (workers st_two_returning) 0 = Some \<lparr>ID = 0, Cancel = 0\<rparr> \<and>
   g_ctx (procs st_two_returning ! 0) = 0 \<and>
   g_id (procs st_two_returning ! 1) \<noteq> g_id (procs st_two_returning ! 0) \<and>
   map_of (workers st_two_gone) (g_id (procs st_two_returning ! 1)) =
     map_of (workers st_two_returning) (g_id (procs st_two_returning ! 1)) \<and>
   reachable 2 (sched_two @ [CallRemoveWorker 0, WSelectDone 0, WDeregister 0]) st_two_gone \<and>
   pc_of st_two_gone 0 = Some Deregistered \<and>
   count_list (sched_two @ [CallRemoveWorker 0, WSelectDone 0, WDeregister 0]) (WDeregister 0) = 1 \<and>
   count_list (sched_two @ [CallRemoveWorker 0, WSelectDone 0, WDeregister 0]) (WDone 0) = 0 \<and>
   workers st_two_gone = [(1, \<lparr>ID = 1, Cancel = 1\<rparr>)] \<and>
   step (WDone 0) st_two_gone = Next (set_pc 0 Signalled (st_two_gone\<lparr>wg := 1\<rparr>)) \<and>
   step (WDone 0) st_two_gone \<noteq> Panic NegativeWaitGroupCounter \<and>
   reachable 1 (sched_drop @ [ShutdownWait, WStop 0]) st_drop_stopped \<and>
   pc_of st_drop_stopped 0 = Some Stopped \<and>
   count_list (sched_drop @ [ShutdownWait, WStop 0]) (WDeregister 0) = 1 \<and>
   count_list (sched_drop @ [ShutdownWait, WStop 0]) (WDone 0) = 1"
proof -
  have r: "reachable 2 (sched_two @ [CallRemoveWorker 0, WSelectDone 0]) st_two_returning"
    by (simp add: eval_defs st_defs)
  have d: "step (WDeregister 0) st_two_returning = Next st_two_gone"
    by (simp add: eval_defs st_defs)
  have b: "length (procs st_two_returning) \<le> 2 ^ 64" "1 < length (procs st_two_returning)"
    "(1::nat) \<noteq> 0" "map_of (workers st_two_returning) 0 = Some \<lparr>ID = 0, Cancel = 0\<rparr>"
    "g_ctx (procs st_two_returning ! 0) = 0"
    by (simp_all add: st_defs)
  from worker_exit_cleanup [OF r, of 0, THEN conjunct2, THEN conjunct2, THEN conjunct2,
      THEN conjunct2, THEN conjunct1, rule_format, OF d]
  have "length (procs st_two_returning) \<le> 2 ^ 64 \<longrightarrow>
      (\<forall>kw \<in> set (workers st_two_returning). fst kw = g_id (procs st_two_returning ! 0) \<longrightarrow>
         Cancel (snd kw) = g_ctx (procs st_two_returning ! 0)) \<and>
      (\<forall>h < length (procs st_two_returning). h \<noteq> 0 \<longrightarrow>
         g_id (procs st_two_returning ! h) \<noteq> g_id (procs st_two_returning ! 0) \<and>
         map_of (workers st_two_gone) (g_id (procs st_two_returning ! h)) =
           map_of (workers st_two_returning) (g_id (procs st_two_returning ! h)))"
    by blast
  with b(1) have "\<forall>h < length (procs st_two_returning). h \<noteq> 0 \<longrightarrow>
         g_id (procs st_two_returning ! h) \<noteq> g_id (procs st_two_returning ! 0) \<and>
         map_of (workers st_two_gone) (g_id (procs st_two_returning ! h)) =
           map_of (workers st_two_returning) (g_id (procs st_two_returning ! h))" by blast
  with b(2,3) have o: "g_id (procs st_two_returning ! 1) \<noteq> g_id (procs st_two_returning ! 0)"
    "map_of (workers st_two_gone) (g_id (procs st_two_returning ! 1)) =
       map_of (workers st_two_returning) (g_id (procs st_two_returning ! 1))" by blast+
  note t = worker_exit_cleanup [OF reachable_st_two_gone, of 0]
  from t have c1: "count_list (sched_two @ [CallRemoveWorker 0, WSelectDone 0, WDeregister 0])
      (WDeregister 0) = deleted_count st_two_gone 0" by (rule conjunct1)
  from t have c2: "count_list (sched_two @ [CallRemoveWorker 0, WSelectDone 0, WDeregister 0])
      (WDone 0) = done_count st_two_gone 0" by (rule conjunct2 [THEN conjunct1])
  have p: "pc_of st_two_gone 0 = Some Deregistered" by (simp add: pc_of_def st_defs)
  have dn: "step (WDone 0) st_two_gone = Next (set_pc 0 Signalled (st_two_gone\<lparr>wg := 1\<rparr>))"
    by (simp add: w_done_def set_pc_def pc_of_def st_defs)
  have w: "workers st_two_gone = [(1, \<lparr>ID = 1, Cancel = 1\<rparr>)]" by (simp add: st_defs)
  have s: "reachable 1 (sched_drop @ [ShutdownWait, WStop 0]) st_drop_stopped"
    by (simp add: eval_defs st_defs)
  have q: "pc_of st_drop_stopped 0 = Some Stopped" by (simp add: pc_of_def st_defs)
  from worker_exit_cleanup [OF s, of 0]
  have "pc_of st_drop_stopped 0 = Some Stopped \<longrightarrow>
      count_list (sched_drop @ [ShutdownWait, WStop 0]) (WDeregister 0) = 1 \<and>
      count_list (sched_drop @ [ShutdownWait, WStop 0]) (WDone 0) = 1"
    by (rule conjunct2 [THEN conjunct2, THEN conjunct1])
  with q have c3: "count_list (sched_drop @ [ShutdownWait, WStop 0]) (WDeregister 0) = 1"
    "count_list (sched_drop @ [ShutdownWait, WStop 0]) (WDone 0) = 1" by simp_all
  from c1 c2 c3 p q dn w s r d b o reachable_st_two_gone show ?thesis
    by (simp add: deleted_count_def done_count_def)
qed

theorem worker_exit_removes_other_entry:
  "reachable 0 sched_collide st_collide \<and>
   length (procs st_collide) = 2 ^ 64 + 1 \<and>
   procs st_collide ! 0 = \<lparr>g_id = 0, g_ctx = 0, g_pc = Returning\<rparr> \<and>
   procs st_collide ! (2 ^ 64) = \<lparr>g_id = 0, g_ctx = 2 ^ 64, g_pc = Starting\<rparr> \<and>
   map_of (workers st_collide) 0 = Some \<lparr>ID = 0, Cancel = 2 ^ 64\<rparr> \<and>
   step (WDeregister 0) st_collide =
     Next (set_pc 0 Deregistered (st_collide\<lparr>workers := AList.delete 0 (workers st_collide)\<rparr>)) \<and>
   map_of (AList.delete 0 (workers st_collide)) 0 = None"
proof -
  define N :: nat where "N = 2 ^ 64"
  have N: "N = Suc (N - 1)" "(of_nat N :: 64 word) = 0" "0 < N"
    by (simp_all add: N_def)
  define B where "B = RemoveWorker 0 (snd (AddWorker st_zero))"
  have B: "procs B = [\<lparr>g_id = 0, g_ctx = 0, g_pc = Starting\<rparr>]" "ctxs B = [True]"
    "nextID B = 1" "sd B = NotCalled"
    by (simp_all add: B_def eval_defs st_defs)
  have rB: "run [CallAddWorker, CallRemoveWorker 0] st_zero = Next B"
    by (simp add: B_def caller_free_def AddWorker_def Let_def st_defs)
  define A' where "A' = add_workers (N - 1) B"
  define A where "A = snd (AddWorker A')"
  have A: "A = add_workers N B"
    using add_workers_Suc_right [of "N - 1" B] N(1) by (simp add: A_def A'_def)
  from B have fB: "caller_free B" by (simp add: caller_free_def)
  from run_add_workers [OF fB, of N] A
  have rA: "run (replicate N CallAddWorker) B = Next A" by simp
  have lp: "length (procs A') = N" and lc: "length (ctxs A') = N"
    using N(1) by (simp_all add: A'_def add_workers_frame B)
  have "nextID A' = 1 + of_nat (N - 1)" by (simp add: A'_def add_workers_frame B)
  also have "\<dots> = of_nat (Suc (N - 1))" by simp
  also have "\<dots> = 0" using N(1,2) by simp
  finally have nx: "nextID A' = 0" .
  have p0: "procs A' ! 0 = \<lparr>g_id = 0, g_ctx = 0, g_pc = Starting\<rparr>" and c0: "ctxs A' ! 0"
    by (simp_all add: A'_def add_workers_old B)
  have pA: "procs A = procs A' @ [\<lparr>g_id = 0, g_ctx = N, g_pc = Starting\<rparr>]"
    and cA: "ctxs A = ctxs A' @ [False]"
    and wA: "workers A = AList.update 0 \<lparr>ID = 0, Cancel = N\<rparr> (workers A')"
    by (simp_all add: A_def AddWorker_def Let_def nx lc)
  define C where "C = set_pc 0 Returning (set_pc 0 Selecting
    (A\<lparr>out := out A @ [Started (g_id (procs A ! 0))]\<rparr>))"
  from pA lp N(3) p0 have a0: "procs A ! 0 = \<lparr>g_id = 0, g_ctx = 0, g_pc = Starting\<rparr>"
    "0 < length (procs A)" by (simp_all add: nth_append)
  from cA lc N(3) c0 have d0: "ctxs A ! 0" "0 < length (ctxs A)" by (simp_all add: nth_append)
  from a0 d0 have rC: "run [WStart 0, WSelectDone 0] A = Next C"
    by (simp add: C_def w_start_def w_select_done_def pc_of_def set_pc_def ctx_done_def)
  have "sched_collide =
      [CallAddWorker, CallRemoveWorker 0] @ (replicate N CallAddWorker @ [WStart 0, WSelectDone 0])"
    by (simp only: sched_collide_def N_def)
  then have "run sched_collide st_zero =
      run ([CallAddWorker, CallRemoveWorker 0] @
        (replicate N CallAddWorker @ [WStart 0, WSelectDone 0])) st_zero" by (rule arg_cong)
  also have "\<dots> =
      (case run [CallAddWorker, CallRemoveWorker 0] st_zero of
         Next s1 \<Rightarrow>
           (case run (replicate N CallAddWorker) s1 of
              Next s2 \<Rightarrow> run [WStart 0, WSelectDone 0] s2
            | Panic e \<Rightarrow> Panic e | Blocked \<Rightarrow> Blocked)
       | Panic e \<Rightarrow> Panic e | Blocked \<Rightarrow> Blocked)"
    unfolding run_append ..
  also have "\<dots> = Next C" by (simp only: rB rA rC outcome.case)
  finally have run: "run sched_collide st_zero = Next C" .
  then have C: "st_collide = C" by (simp add: st_collide_def)
  from run NewPool_0 have 1: "reachable 0 sched_collide C" by (simp add: reachable_def)
  from pA lp have 2: "length (procs C) = N + 1" by (simp add: C_def set_pc_def)
  from a0 have 3: "procs C ! 0 = \<lparr>g_id = 0, g_ctx = 0, g_pc = Returning\<rparr>"
    by (simp add: C_def set_pc_def)
  from pA lp N(3) have 4: "procs C ! N = \<lparr>g_id = 0, g_ctx = N, g_pc = Starting\<rparr>"
    by (simp add: C_def set_pc_def nth_append)
  from wA have 5: "map_of (workers C) 0 = Some \<lparr>ID = 0, Cancel = N\<rparr>"
    by (simp add: C_def set_pc_def AList.update_conv')
  from 3 2 have 6: "step (WDeregister 0) C =
      Next (set_pc 0 Deregistered (C\<lparr>workers := AList.delete 0 (workers C)\<rparr>))"
    by (simp add: w_deregister_def pc_of_def)
  have 7: "map_of (AList.delete 0 (workers C)) 0 = None" by (simp add: AList.delete_conv)
  from 1 2 3 4 5 6 7 show ?thesis unfolding C N_def by blast
qed

text \<open>
  C6. \<^verbatim>\<open>AddWorker\<close> has no failing branch: it returns an id in every state, and as a
  step of the caller it neither panics nor waits. When it returns, the registry maps the returned id to the new handle, the
  \<^verbatim>\<open>WaitGroup\<close> counter has been incremented and counts the new goroutine, and the new
  goroutine has not run a statement yet: it stands before its first \<^verbatim>\<open>Printf\<close>, nothing
  has been printed and no job has been delivered to it.
\<close>

theorem AddWorker_registers:
  assumes "reachable n acts s" and "AddWorker s = (wid, s')"
  shows "(caller_free s \<longrightarrow> step CallAddWorker s = Next s') \<and>
    wid = nextID s \<and>
    map_of (workers s') wid = Some \<lparr>ID = wid, Cancel = length (ctxs s)\<rparr> \<and>
    wg s' = wg s + 1 \<and> wg s' = int (live s') \<and>
    procs s' = procs s @ [\<lparr>g_id = wid, g_ctx = length (ctxs s), g_pc = Starting\<rparr>] \<and>
    out s' = out s \<and> delivered s' = delivered s \<and>
    (\<forall>j. (length (procs s), j) \<notin> set (delivered s'))"
proof -
  from assms(2) have st: "caller_free s \<longrightarrow> step CallAddWorker s = Next s'" by simp
  from assms(2) have "live s' = live s + 1" "wg s' = wg s + 1"
    by (auto simp: AddWorker_def Let_def live_def)
  with reachable_inv_wg [OF assms(1)] have "wg s' = int (live s')"
    by (simp add: inv_wg_def)
  moreover from reachable_inv_hist [OF assms(1)]
  have "\<forall>j. (length (procs s), j) \<notin> set (delivered s)"
    by (auto simp: inv_hist_def)
  moreover from assms(2) have "map_of (workers s') wid = Some \<lparr>ID = wid, Cancel = length (ctxs s)\<rparr>"
    by (auto simp: AddWorker_def Let_def AList.update_conv')
  ultimately show ?thesis using assms(2) st
    by (auto simp: AddWorker_def Let_def)
qed

theorem AddWorker_registers_witness:
  "reachable 2 sched_two st_two \<and>
   AddWorker st_two = (2, snd (AddWorker st_two)) \<and> caller_free st_two \<and>
   step CallAddWorker st_two = Next (snd (AddWorker st_two)) \<and>
   map_of (workers (snd (AddWorker st_two))) 2 = Some \<lparr>ID = 2, Cancel = 2\<rparr> \<and>
   wg (snd (AddWorker st_two)) = 3 \<and>
   procs (snd (AddWorker st_two)) = procs st_two @ [\<lparr>g_id = 2, g_ctx = 2, g_pc = Starting\<rparr>]"
proof -
  have a: "AddWorker st_two = (2, snd (AddWorker st_two))"
    by (simp add: AddWorker_def st_defs)
  have f: "caller_free st_two" by (simp add: caller_free_def st_defs)
  from AddWorker_registers [OF reachable_st_two a] reachable_st_two a f
  show ?thesis by (simp add: st_defs)
qed

text \<open>
  C7. Every call of \<^verbatim>\<open>AddWorker\<close> makes a new cancellation scope: it is not done,
  and no worker and no registry entry made before has it; the workers' scopes are
  pairwise distinct. Cancelling a scope leaves every worker with another scope where it
  stands, with its scope as it was and parked if it was parked; the buffer, the capacity
  and the closed flag of the queue, the registry and the counter stay as they are.
  \<^verbatim>\<open>RemoveWorker(A)\<close> is at most the cancellation of a scope that a worker with another id
  does not have. And such a worker goes on as before: each of its steps, taken after the
  cancellation, does what it would have done before it, and leads to the same state as
  taking the step first and cancelling then.
\<close>

theorem cancellation_isolated:
  assumes "reachable n acts s"
  shows "distinct (map g_ctx (procs s)) \<and>
    g_ctx (last (procs (snd (AddWorker s)))) = length (ctxs s) \<and>
    map_of (workers (snd (AddWorker s))) (fst (AddWorker s)) =
      Some \<lparr>ID = fst (AddWorker s), Cancel = length (ctxs s)\<rparr> \<and>
    \<not> ctx_done (snd (AddWorker s)) (length (ctxs s)) \<and>
    (\<forall>B < length (procs s). g_ctx (procs s ! B) \<noteq> length (ctxs s)) \<and>
    (\<forall>kw \<in> set (workers s). Cancel (snd kw) \<noteq> length (ctxs s)) \<and>
    (\<forall>c. buf (jobs (cancel c s)) = buf (jobs s) \<and> cap (jobs (cancel c s)) = cap (jobs s) \<and>
         closed (jobs (cancel c s)) = closed (jobs s) \<and> workers (cancel c s) = workers s \<and>
         wg (cancel c s) = wg s) \<and>
    (\<forall>c B. B < length (procs s) \<and> g_ctx (procs s ! B) \<noteq> c \<longrightarrow>
       procs (cancel c s) ! B = procs s ! B \<and>
       ctx_done (cancel c s) (g_ctx (procs s ! B)) = ctx_done s (g_ctx (procs s ! B)) \<and>
       (B \<in> set (recvq (jobs (cancel c s))) \<longleftrightarrow> B \<in> set (recvq (jobs s))) \<and>
       (\<forall>a. actor a = Some B \<longrightarrow>
          step a (cancel c s) =
            (case step a s of Next t \<Rightarrow> Next (cancel c t) | Panic e \<Rightarrow> Panic e
             | Blocked \<Rightarrow> Blocked))) \<and>
    (\<forall>A B. B < length (procs s) \<and> g_id (procs s ! B) \<noteq> A \<longrightarrow>
       RemoveWorker A s = s \<or>
       (\<exists>c. c \<noteq> g_ctx (procs s ! B) \<and> RemoveWorker A s = cancel c s))"
proof (intro conjI allI impI ballI)
  from reachable_wf [OF assms] have wf: "wf s" .
  then have ids: "length (ctxs s) = length (procs s)"
    "\<And>i. i < length (procs s) \<Longrightarrow> g_ctx (procs s ! i) = i"
    by (simp_all add: wf_def inv_ids_def)
  show "distinct (map g_ctx (procs s))"
    unfolding distinct_conv_nth using ids(2) by simp
  show "g_ctx (last (procs (snd (AddWorker s)))) = length (ctxs s)"
    by (simp add: AddWorker_def Let_def)
  show "map_of (workers (snd (AddWorker s))) (fst (AddWorker s)) =
      Some \<lparr>ID = fst (AddWorker s), Cancel = length (ctxs s)\<rparr>"
    by (simp add: AddWorker_def Let_def AList.update_conv')
  show "\<not> ctx_done (snd (AddWorker s)) (length (ctxs s))"
    by (simp add: AddWorker_def Let_def ctx_done_def)
  show "g_ctx (procs s ! B) \<noteq> length (ctxs s)" if "B < length (procs s)" for B
    using that ids by simp
  show "Cancel (snd kw) \<noteq> length (ctxs s)" if "kw \<in> set (workers s)" for kw
    using that wf by (auto simp: wf_def inv_reg_def)
  show "buf (jobs (cancel c s)) = buf (jobs s)" "cap (jobs (cancel c s)) = cap (jobs s)"
    "closed (jobs (cancel c s)) = closed (jobs s)" "workers (cancel c s) = workers s"
    "wg (cancel c s) = wg s" for c
    by simp_all
  {
    fix c B assume a: "B < length (procs s) \<and> g_ctx (procs s ! B) \<noteq> c"
    then show "procs (cancel c s) ! B = procs s ! B" by (simp add: cancel_def)
    from a show "ctx_done (cancel c s) (g_ctx (procs s ! B)) = ctx_done s (g_ctx (procs s ! B))"
      by (auto simp: ctx_done_cancel)
    from a show "B \<in> set (recvq (jobs (cancel c s))) \<longleftrightarrow> B \<in> set (recvq (jobs s))"
      by simp
    fix a assume "actor a = Some B"
    with a show "step a (cancel c s) =
            (case step a s of Next t \<Rightarrow> Next (cancel c t) | Panic e \<Rightarrow> Panic e
             | Blocked \<Rightarrow> Blocked)"
      by (intro cancel_commute) simp_all
  }
  show "RemoveWorker A s = s \<or>
       (\<exists>c. c \<noteq> g_ctx (procs s ! B) \<and> RemoveWorker A s = cancel c s)"
    if "B < length (procs s) \<and> g_id (procs s ! B) \<noteq> A" for A B
    using that wf by (intro RemoveWorker_other) simp_all
qed

theorem cancellation_isolated_witness:
  "reachable 2 sched_two st_two \<and>
   g_id (procs st_two ! 1) \<noteq> 0 \<and> g_ctx (procs st_two ! 1) \<noteq> 0 \<and>
   RemoveWorker 0 st_two = cancel 0 st_two \<and> cancel 0 st_two = st_two_removed \<and>
   procs st_two_removed ! 1 = procs st_two ! 1 \<and>
   buf (jobs st_two_removed) = buf (jobs st_two) \<and>
   \<not> ctx_done st_two_removed 1 \<and>
   step (WProcess 1) st_two_removed =
     Next (cancel 0 (set_pc 1 Selecting (st_two\<lparr>out := out st_two @ [ProcessingJob 1 ''Task 0'']\<rparr>))) \<and>
   pc_of (cancel 0 (set_pc 1 Selecting (st_two\<lparr>out := out st_two @ [ProcessingJob 1 ''Task 0'']\<rparr>))) 1
     = Some Selecting \<and>
   g_ctx (last (procs (snd (AddWorker st_two)))) = 2 \<and>
   \<not> ctx_done (snd (AddWorker st_two)) 2"
proof -
  note t = cancellation_isolated [OF reachable_st_two]
  have a: "1 < length (procs st_two) \<and> g_ctx (procs st_two ! 1) \<noteq> 0" by (simp add: st_defs)
  from t have "\<forall>c B. B < length (procs st_two) \<and> g_ctx (procs st_two ! B) \<noteq> c \<longrightarrow>
       procs (cancel c st_two) ! B = procs st_two ! B \<and>
       ctx_done (cancel c st_two) (g_ctx (procs st_two ! B)) = ctx_done st_two (g_ctx (procs st_two ! B)) \<and>
       (B \<in> set (recvq (jobs (cancel c st_two))) \<longleftrightarrow> B \<in> set (recvq (jobs st_two))) \<and>
       (\<forall>a. actor a = Some B \<longrightarrow>
          step a (cancel c st_two) =
            (case step a st_two of Next t \<Rightarrow> Next (cancel c t) | Panic e \<Rightarrow> Panic e
             | Blocked \<Rightarrow> Blocked))"
    by blast
  with a have "procs (cancel 0 st_two) ! 1 = procs st_two ! 1"
    and "step (WProcess 1) (cancel 0 st_two) =
            (case step (WProcess 1) st_two of Next t \<Rightarrow> Next (cancel 0 t) | Panic e \<Rightarrow> Panic e
             | Blocked \<Rightarrow> Blocked)"
    by (blast, metis actor.simps(5))
  moreover have "cancel 0 st_two = st_two_removed" "RemoveWorker 0 st_two = cancel 0 st_two"
    by (simp_all add: eval_defs st_defs)
  moreover have "step (WProcess 1) st_two =
      Next (set_pc 1 Selecting (st_two\<lparr>out := out st_two @ [ProcessingJob 1 ''Task 0'']\<rparr>))"
    by (simp add: w_process_def pc_of_def st_defs)
  ultimately show ?thesis using reachable_st_two
    by (simp add: eval_defs st_defs)
qed

text \<open>
  C8. \<^verbatim>\<open>RemoveWorker(id)\<close> never fails and never changes the registry. For an id that is not
  in the registry it changes nothing at all. For an id that is in the registry it is
  exactly the call of that entry's \<^verbatim>\<open>Cancel\<close>, whose context belongs to a goroutine with
  this id and is done afterwards. The entry is deleted by the worker's own deferred
  function, and from then on \<^verbatim>\<open>RemoveWorker\<close> of that id changes nothing.
\<close>

theorem RemoveWorker_frame:
  assumes "reachable n acts s"
  shows "(caller_free s \<longrightarrow> step (CallRemoveWorker wid) s = Next (RemoveWorker wid s)) \<and>
    workers (RemoveWorker wid s) = workers s \<and>
    (map_of (workers s) wid = None \<longrightarrow> RemoveWorker wid s = s) \<and>
    (\<forall>w. map_of (workers s) wid = Some w \<longrightarrow>
       RemoveWorker wid s = cancel (Cancel w) s \<and>
       ctx_done (RemoveWorker wid s) (Cancel w) \<and>
       (\<exists>i < length (procs s). g_id (procs s ! i) = wid \<and> g_ctx (procs s ! i) = Cancel w)) \<and>
    (\<forall>g s'. step (WDeregister g) s = Next s' \<longrightarrow>
       map_of (workers s') (g_id (procs s ! g)) = None \<and>
       RemoveWorker (g_id (procs s ! g)) s' = s')"
proof (intro conjI allI impI)
  show "step (CallRemoveWorker wid) s = Next (RemoveWorker wid s)" if "caller_free s"
    using that by simp
  show "workers (RemoveWorker wid s) = workers s"
    by (simp add: RemoveWorker_def split: option.splits)
  show "RemoveWorker wid s = s" if "map_of (workers s) wid = None"
    using that by (simp add: RemoveWorker_def)
next
  fix w assume w: "map_of (workers s) wid = Some w"
  then show e: "RemoveWorker wid s = cancel (Cancel w) s" by (simp add: RemoveWorker_def)
  from w have "(wid, w) \<in> set (workers s)" by (rule map_of_SomeD)
  with reachable_inv_reg [OF assms]
  obtain i where i: "i < length (procs s)" "g_id (procs s ! i) = wid"
      "g_ctx (procs s ! i) = Cancel w" and c: "Cancel w < length (ctxs s)"
    by (fastforce simp: inv_reg_def)
  from c show "ctx_done (RemoveWorker wid s) (Cancel w)"
    unfolding e by (simp add: ctx_done_def)
  from i show "\<exists>i < length (procs s). g_id (procs s ! i) = wid \<and> g_ctx (procs s ! i) = Cancel w"
    by blast
next
  fix g s' assume "step (WDeregister g) s = Next s'"
  then have s': "s' = set_pc g Deregistered (s\<lparr>workers := AList.delete (g_id (procs s ! g)) (workers s)\<rparr>)"
    by (simp add: w_deregister_def split: if_splits)
  then show n: "map_of (workers s') (g_id (procs s ! g)) = None"
    by (simp add: AList.delete_conv')
  then show "RemoveWorker (g_id (procs s ! g)) s' = s'" by (simp add: RemoveWorker_def)
qed

theorem RemoveWorker_frame_witness:
  "reachable 2 sched_two st_two \<and>
   step (CallRemoveWorker 0) st_two = Next st_two_removed \<and>
   workers st_two_removed = workers st_two \<and>
   map_of (workers st_two) 7 = None \<and> RemoveWorker 7 st_two = st_two \<and>
   map_of (workers st_two) 0 = Some \<lparr>ID = 0, Cancel = 0\<rparr> \<and>
   ctx_done st_two_removed 0 \<and> \<not> ctx_done st_two 0 \<and>
   step (WDeregister 0) (set_pc 0 Returning st_two_removed) = Next st_two_gone \<and>
   RemoveWorker 0 st_two_gone = st_two_gone"
proof -
  have a: "RemoveWorker 0 st_two = st_two_removed" by (simp add: eval_defs st_defs)
  have b: "step (WDeregister 0) (set_pc 0 Returning st_two_removed) = Next st_two_gone"
    by (simp add: eval_defs st_defs)
  have c: "reachable 2 (sched_two @ [CallRemoveWorker 0, WSelectDone 0]) (set_pc 0 Returning st_two_removed)"
    by (simp add: eval_defs st_defs)
  from RemoveWorker_frame [OF reachable_st_two, of 0] RemoveWorker_frame [OF reachable_st_two, of 7]
    RemoveWorker_frame [OF c, of 0] a b reachable_st_two
  show ?thesis by (simp add: eval_defs st_defs)
qed

text \<open>
  C9. On a pool whose job queue \<^verbatim>\<open>Shutdown\<close> has closed, every later call of \<^verbatim>\<open>SendJob\<close>
  panics with "send on closed channel", whatever ran in between; it returns neither the
  queue-full error nor success.
\<close>

theorem SendJob_after_close_panics:
  assumes "Shutdown_close s = Inr s1" and "run acts s1 = Next s2"
  shows "SendJob job s2 = Inl SendOnClosedChannel \<and>
         (caller_free s2 \<longrightarrow> step (CallSendJob job) s2 = Panic SendOnClosedChannel)"
proof -
  from assms(1) have "closed (jobs s1)"
    by (auto simp: Shutdown_close_def split: if_splits)
  with assms(2) have "closed (jobs s2)" by (rule run_closed)
  then show ?thesis by (simp add: SendJob_def)
qed

theorem SendJob_after_close_panics_witness:
  "NewPool 2 = Inr st_fresh \<and> Shutdown_close st_fresh = Inr st_closed \<and>
   run [ShutdownCancel, ShutdownWait] st_closed = Next st_closed_done \<and>
   SendJob ''Task 8'' st_closed_done = Inl SendOnClosedChannel \<and>
   caller_free st_closed_done \<and>
   step (CallSendJob ''Task 8'') st_closed_done = Panic SendOnClosedChannel"
proof -
  have a: "Shutdown_close st_fresh = Inr st_closed"
    by (simp add: Shutdown_close_def st_fresh_def st_closed_def)
  have b: "run [ShutdownCancel, ShutdownWait] st_closed = Next st_closed_done"
    by (simp add: Shutdown_cancel_def Shutdown_wait_def st_fresh_def st_closed_def
        st_closed_done_def)
  have c: "caller_free st_closed_done"
    by (simp add: caller_free_def st_fresh_def st_closed_def st_closed_done_def)
  from SendJob_after_close_panics [OF a b, of "''Task 8''"] NewPool_2 a b c show ?thesis by simp
qed

text \<open>
  C10, as amended. \<^verbatim>\<open>NewPool\<close> does not accept every non-negative \<^verbatim>\<open>bufferSize\<close>:
  \<^verbatim>\<open>make\<close> panics for a size whose buffer would exceed what the runtime can allocate,
  \<^verbatim>\<open>NewPool(math.MaxInt64)\<close> for one. It returns a pool exactly for the sizes from 0 to
  \<open>2\<^sup>4\<^sup>4 - 7\<close>, the sizes \<open>n\<close> with \<open>16 n \<le> 2\<^sup>4\<^sup>8 - 104\<close> that pass the check of
  \<^verbatim>\<open>runtime.makechan\<close>, zero included, and the capacity of the queue is that size; for
  every other size it panics. (Whether the host has the memory for a size that passes
  the check is not part of the model.) On a pool made with
  \<^verbatim>\<open>bufferSize\<close> 0, whose queue is still open, every \<^verbatim>\<open>SendJob\<close> that finds no worker
  parked in its receive returns the queue-full error although the buffer is empty; with
  a worker parked, the job is handed to that worker and the buffer stays empty.
\<close>

theorem NewPool_zero_unbuffered:
  "(0 \<le> sint n \<and> sint n \<le> 2 ^ 44 - 7 \<longrightarrow>
      (\<exists>s0. NewPool n = Inr s0 \<and> cap (jobs s0) = nat (sint n) \<and>
        buf (jobs s0) = [] \<and> \<not> closed (jobs s0) \<and> workers s0 = [] \<and> procs s0 = [])) \<and>
   (sint n < 0 \<or> 2 ^ 44 - 7 < sint n \<longrightarrow> NewPool n = Inl MakechanSizeOutOfRange) \<and>
   NewPool 0 = Inr st_zero \<and>
   (reachable 0 acts s \<and> \<not> closed (jobs s) \<and> recvq (jobs s) = [] \<longrightarrow>
      SendJob job s = Inr (Some QueueFull, s) \<and> buf (jobs s) = []) \<and>
   (\<forall>g q. reachable 0 acts s \<and> \<not> closed (jobs s) \<and> recvq (jobs s) = g # q \<longrightarrow>
      (\<exists>s'. SendJob job s = Inr (None, s') \<and> buf (jobs s') = [] \<and>
         pc_of s' g = Some (Processing job) \<and> delivered s' = delivered s @ [(g, job)]))"
proof (intro conjI allI impI)
  assume a: "0 \<le> sint n \<and> sint n \<le> 2 ^ 44 - 7"
  then have u: "unat n = nat (sint n)" by (simp add: unat_nonneg)
  with a have "unat n \<le> 2 ^ 44 - 7" by (simp add: nat_le_iff)
  then have b: "elem_size * unat n \<le> maxAlloc - hchanSize" "elem_size * unat n < 2 ^ 64"
    by (simp_all add: elem_size_def maxAlloc_def hchanSize_def)
  then have "(elem_size * unat n) mod 2 ^ 64 = elem_size * unat n" by simp
  with a b have "make_chan n = Inr \<lparr>buf = [], cap = nat (sint n), closed = False, recvq = []\<rparr>"
    by (simp add: make_chan_def Let_def)
  then show "\<exists>s0. NewPool n = Inr s0 \<and> cap (jobs s0) = nat (sint n) \<and>
        buf (jobs s0) = [] \<and> \<not> closed (jobs s0) \<and> workers s0 = [] \<and> procs s0 = []"
    by (simp add: NewPool_def)
next
  assume a: "sint n < 0 \<or> 2 ^ 44 - 7 < sint n"
  have "make_chan n = Inl MakechanSizeOutOfRange"
  proof (cases "sint n < 0")
    case True
    then show ?thesis by (simp add: make_chan_def Let_def)
  next
    case False
    with a have "2 ^ 44 - 7 < sint n" by simp
    moreover from False have "unat n = nat (sint n)" by (simp add: unat_nonneg)
    ultimately have "2 ^ 44 - 7 < unat n" by (simp add: zless_nat_eq_int_zless)
    then have big: "maxAlloc - hchanSize < elem_size * unat n"
      by (simp add: elem_size_def maxAlloc_def hchanSize_def)
    show ?thesis
    proof (cases "2 ^ 64 \<le> elem_size * unat n")
      case True
      then show ?thesis by (simp add: make_chan_def Let_def)
    next
      case False
      then have "(elem_size * unat n) mod 2 ^ 64 = elem_size * unat n" by simp
      with big show ?thesis by (simp add: make_chan_def Let_def)
    qed
  qed
  then show "NewPool n = Inl MakechanSizeOutOfRange" by (simp add: NewPool_def)
next
  show "NewPool 0 = Inr st_zero" by (rule NewPool_0)
next
  assume a: "reachable 0 acts s \<and> \<not> closed (jobs s) \<and> recvq (jobs s) = []"
  then have "cap (jobs s) = 0" using reachable_cap [of 0 acts s] by simp
  moreover from a have "inv_q s" by (auto intro: reachable_inv_q)
  ultimately have b: "buf (jobs s) = []" by (simp add: inv_q_def)
  with a \<open>cap (jobs s) = 0\<close> show "SendJob job s = Inr (Some QueueFull, s)"
    by (simp add: SendJob_def)
  from b show "buf (jobs s) = []" .
next
  fix g q assume a: "reachable 0 acts s \<and> \<not> closed (jobs s) \<and> recvq (jobs s) = g # q"
  then have q: "inv_q s" by (auto intro: reachable_inv_q)
  with a have "g < length (procs s)" "buf (jobs s) = []" by (auto simp: inv_q_def)
  with a show "\<exists>s'. SendJob job s = Inr (None, s') \<and> buf (jobs s') = [] \<and>
         pc_of s' g = Some (Processing job) \<and> delivered s' = delivered s @ [(g, job)]"
    by (simp add: SendJob_def pc_of_def)
qed

theorem NewPool_zero_unbuffered_witness:
  "0 \<le> sint (0 :: goint) \<and> sint (0 :: goint) \<le> 2 ^ 44 - 7 \<and>
   NewPool 0 = Inr st_zero \<and> cap (jobs st_zero) = 0 \<and>
   0 \<le> sint (10 :: goint) \<and> sint (10 :: goint) \<le> 2 ^ 44 - 7 \<and>
   cap (jobs (projr (NewPool 10))) = 10 \<and>
   sint (- 1 :: goint) < 0 \<and> NewPool (- 1) = Inl MakechanSizeOutOfRange \<and>
   reachable 0 [] st_zero \<and> \<not> closed (jobs st_zero) \<and> recvq (jobs st_zero) = [] \<and>
   SendJob ''Task 0'' st_zero = Inr (Some QueueFull, st_zero) \<and>
   reachable 0 [CallAddWorker, WStart 0, WPark 0] st_zero_parked \<and>
   recvq (jobs st_zero_parked) = [0] \<and>
   fst (projr (SendJob ''Task 0'' st_zero_parked)) = None \<and>
   buf (jobs (snd (projr (SendJob ''Task 0'' st_zero_parked)))) = [] \<and>
   pc_of (snd (projr (SendJob ''Task 0'' st_zero_parked))) 0 = Some (Processing ''Task 0'')"
proof -
  have a: "0 \<le> sint (10 :: goint) \<and> sint (10 :: goint) \<le> 2 ^ 44 - 7" by simp
  from NewPool_zero_unbuffered [THEN conjunct1, rule_format, OF a]
  obtain s0 where "NewPool 10 = Inr s0"
    "cap (jobs s0) = nat (sint (10 :: goint))" by blast
  then have big: "cap (jobs (projr (NewPool 10))) = 10" by simp
  have m: "sint (- 1 :: goint) < 0 \<or> 2 ^ 44 - 7 < sint (- 1 :: goint)" by simp
  from NewPool_zero_unbuffered [THEN conjunct2, THEN conjunct1, rule_format, OF m]
  have neg: "NewPool (- 1) = Inl MakechanSizeOutOfRange" .
  from NewPool_zero_unbuffered [of 0 "[]" st_zero "''Task 0''"]
    NewPool_zero_unbuffered [of 0 "[CallAddWorker, WStart 0, WPark 0]" st_zero_parked "''Task 0''"]
    reachable_st_zero reachable_st_zero_parked big neg
  show ?thesis by (simp add: SendJob_def pc_of_def st_defs)
qed

theorem NewPool_size_out_of_range:
  "0 \<le> sint (2 ^ 63 - 1 :: goint) \<and> NewPool (2 ^ 63 - 1) = Inl MakechanSizeOutOfRange \<and>
   0 \<le> sint (2 ^ 44 :: goint) \<and> NewPool (2 ^ 44) = Inl MakechanSizeOutOfRange \<and>
   0 \<le> sint (2 ^ 44 - 6 :: goint) \<and> NewPool (2 ^ 44 - 6) = Inl MakechanSizeOutOfRange"
  by (simp add: NewPool_def make_chan_def elem_size_def maxAlloc_def hchanSize_def)

end
